theory Spec2Isabelle
  imports Main "HOL-Library.Word" "HOL-Library.Monad_Syntax"
begin

unbundle bit_operations_syntax

section \<open>Word-parallel primitives\<close>

type_synonym u8 = "8 word"
type_synonym u16 = "16 word"
type_synonym u64 = "64 word"

text \<open>
  A 64-bit MMX register holds eight byte lanes; lane \<open>i\<close> occupies bits \<open>8 * i\<close> to
  \<open>8 * i + 7\<close>.
\<close>

definition lane :: "u64 \<Rightarrow> nat \<Rightarrow> u8" where
  "lane w i = ucast (drop_bit (8 * i) w)"

fun pack_lanes :: "u8 list \<Rightarrow> u64" where
  "pack_lanes [] = 0"
| "pack_lanes (x # xs) = ucast x OR push_bit 8 (pack_lanes xs)"

text \<open>
  The Intel intrinsic \<open>_m_pcmpgtb\<close> (instruction PCMPGTB on MMX registers): compares the
  eight lanes as SIGNED bytes; a lane of the result is \<open>0xFF\<close> where the lane of the first
  operand is greater, \<open>0x00\<close> elsewhere.
\<close>

definition m_pcmpgtb :: "u64 \<Rightarrow> u64 \<Rightarrow> u64" where
  "m_pcmpgtb a b =
     pack_lanes (map (\<lambda>i. if sint (lane b i) < sint (lane a i) then 0xFF else 0x00) [0..<8])"

text \<open>The Intel intrinsic \<open>_mm_xor_si64\<close>: bitwise exclusive or of two 64-bit values.\<close>

definition mm_xor_si64 :: "u64 \<Rightarrow> u64 \<Rightarrow> u64" where
  "mm_xor_si64 a b = a XOR b"

definition XOR_MASK :: u64 where
  "XOR_MASK = 0x8080808080808080"

text \<open>\<open>tdc::intrisics::pcmpgtub\<close>.\<close>

definition pcmpgtub :: "u64 \<Rightarrow> u64 \<Rightarrow> u64" where
  "pcmpgtub a b = m_pcmpgtb (mm_xor_si64 a XOR_MASK) (mm_xor_si64 b XOR_MASK)"

section \<open>The sampling index \<open>DynIndex\<close>\<close>

subsection \<open>Buckets\<close>

text \<open>
  A bucket pointer is \<open>None\<close> (the null pointer) or the address of a bucket in the heap.
  The heap is the list of all buckets allocated so far: \<open>new bucket\<close> appends one and
  its address is its position.
\<close>

type_synonym ptr = "nat option"

text \<open>
  The two bucket representations selected by the template parameter \<open>t_list\<close>:
  \<open>bucket_bv\<close> holds a \<open>std::bitset\<close> (the set of positions that are set),
  \<open>bucket_list\<close> holds a \<open>std::vector<uint16_t>\<close>.
\<close>

datatype store = bits "nat set" | list "u16 list"

record bucket =
  prefix :: u64
  prev_pred :: u64
  next_b :: ptr
  store :: store

text \<open>\<open>new bucket\<close>: the default member initialisers, for the representation chosen by \<open>t_list\<close>.
  The field \<open>prefix\<close> has no initialiser; every caller assigns it right after the allocation,
  so the constructor of the model takes it.\<close>

definition new_bucket :: "bool \<Rightarrow> u64 \<Rightarrow> bucket" where
  "new_bucket t_list pre =
     \<lparr>prefix = pre, prev_pred = 0, next_b = None,
      store = (if t_list then list [] else bits {})\<rparr>"

text \<open>\<open>bucket_bv::set\<close> and \<open>bucket_list::set\<close>; the latter narrows the argument to
  \<open>uint16_t\<close> in \<open>push_back\<close>.\<close>

definition set_b :: "u64 \<Rightarrow> bucket \<Rightarrow> bucket" where
  "set_b i b =
     (case store b of
        bits bs \<Rightarrow> b\<lparr>store := bits (insert (unat i) bs)\<rparr>
      | list l \<Rightarrow> b\<lparr>store := list (l @ [ucast i])\<rparr>)"

text \<open>The loop of \<open>bucket_bv::pred\<close>: \<open>for (; i >= 0; --i) if (bits[i]) ...\<close> over the
  signed \<open>int64_t i\<close>.\<close>

function bv_scan :: "nat set \<Rightarrow> int \<Rightarrow> int option" where
  "bv_scan bs i = (if 0 \<le> i then (if nat i \<in> bs then Some i else bv_scan bs (i - 1)) else None)"
  by pat_completeness auto
termination
  by (relation "measure (\<lambda>(bs, i). nat (i + 1))") auto

declare bv_scan.simps [simp del]

text \<open>The first loop of \<open>bucket_list::pred\<close>: stops at the first element \<open>list[j] <= i\<close>
  (a signed 64-bit comparison after integer promotion) and yields \<open>p\<close> together with the
  rest of the list from position \<open>j\<close> on, where the second loop resumes.\<close>

fun list_first :: "u16 list \<Rightarrow> int \<Rightarrow> (u64 \<times> u16 list) option" where
  "list_first [] i = None"
| "list_first (e # es) i = (if uint e \<le> i then Some (ucast e, e # es) else list_first es i)"

text \<open>The second loop: \<open>if (list[j] > p && list[j] <= i) p = list[j]\<close>; the first comparison
  is unsigned 64-bit, the second signed.\<close>

fun list_rest :: "u16 list \<Rightarrow> int \<Rightarrow> u64 \<Rightarrow> u64" where
  "list_rest [] i p = p"
| "list_rest (e # es) i p = list_rest es i (if p < ucast e \<and> uint e \<le> i then ucast e else p)"

text \<open>\<open>bucket_bv::pred\<close> and \<open>bucket_list::pred\<close>, with \<open>s = b_wordl\<close>.\<close>

definition pred_b :: "nat \<Rightarrow> bucket \<Rightarrow> int \<Rightarrow> u64" where
  "pred_b s b i =
     (case store b of
        bits bs \<Rightarrow>
          (case bv_scan bs i of
             Some j \<Rightarrow> push_bit s (prefix b) + word_of_int j
           | None \<Rightarrow> prev_pred b)
      | list l \<Rightarrow>
          (case list_first l i of
             None \<Rightarrow> prev_pred b
           | Some (p, rest) \<Rightarrow> push_bit s (prefix b) + list_rest rest i p))"

subsection \<open>The index\<close>

text \<open>The members of the class, and with them the part of the memory that holds the
  buckets (\<open>heap\<close>): the buckets are reached through pointers only.\<close>

record DynIndex =
  m_size :: u64
  m_min :: u64
  m_max :: u64
  m_xf :: "ptr list"
  m_first_b :: ptr
  heap :: "bucket list"

text \<open>The default constructor. \<open>m_min\<close> and \<open>m_max\<close> have no initialiser: they hold
  whatever was in memory, here the two arguments.\<close>

definition empty_index :: "u64 \<Rightarrow> u64 \<Rightarrow> DynIndex" where
  "empty_index g_min g_max =
     \<lparr>m_size = 0, m_min = g_min, m_max = g_max, m_xf = [], m_first_b = None, heap = []\<rparr>"

text \<open>\<open>prefix(i)\<close> and \<open>suffix(i)\<close> of the class, with \<open>b_wordl = s\<close> and
  \<open>b_size = 1ULL << s\<close>. The class splits a word of 40 bits, so \<open>s\<close> is at most 40;
  the results below need \<open>0 < s\<close> only.\<close>

definition prefix_of :: "nat \<Rightarrow> u64 \<Rightarrow> u64" where
  "prefix_of s i = drop_bit s i"

definition suffix_of :: "nat \<Rightarrow> u64 \<Rightarrow> u64" where
  "suffix_of s i = i AND (push_bit s 1 - 1)"

text \<open>Memory accesses. Dereferencing the null pointer, indexing a vector out of range and
  \<open>back()\<close> of an empty vector are undefined behaviour: the model returns \<open>None\<close>.\<close>

definition deref :: "bucket list \<Rightarrow> ptr \<Rightarrow> bucket option" where
  "deref h p = (case p of None \<Rightarrow> None | Some a \<Rightarrow> if a < length h then Some (h ! a) else None)"

definition assign :: "bucket list \<Rightarrow> ptr \<Rightarrow> (bucket \<Rightarrow> bucket) \<Rightarrow> bucket list option" where
  "assign h p f =
     (case p of None \<Rightarrow> None | Some a \<Rightarrow> if a < length h then Some (h[a := f (h ! a)]) else None)"

definition at :: "'a list \<Rightarrow> nat \<Rightarrow> 'a option" where
  "at xs i = (if i < length xs then Some (xs ! i) else None)"

definition vec_back :: "'a list \<Rightarrow> 'a option" where
  "vec_back xs = (if xs = [] then None else Some (last xs))"

definition resize :: "'a list \<Rightarrow> nat \<Rightarrow> 'a \<Rightarrow> 'a list" where
  "resize xs n v = (if n \<le> length xs then take n xs else xs @ replicate (n - length xs) v)"

text \<open>The loop at the end of \<open>insert\<close>:
  \<open>for (j = key_pre + 1; j < m_xf.size() && next_bucket == m_xf[j]; ++j) m_xf[j] = new_b\<close>.\<close>

function fill :: "ptr list \<Rightarrow> nat \<Rightarrow> ptr \<Rightarrow> ptr \<Rightarrow> ptr list" where
  "fill xf j next_bucket new_b =
     (if j < length xf \<and> next_bucket = xf ! j
      then fill (xf[j := new_b]) (j + 1) next_bucket new_b
      else xf)"
  by pat_completeness auto
termination
  by (relation "measure (\<lambda>(xf, j, n, b). length xf - j)") auto

declare fill.simps [simp del]

text \<open>The common tail of \<open>insert\<close> (the statements after the case distinction): update of
  \<open>m_min\<close> and \<open>m_max\<close>, then of the top array.\<close>

definition update_xf :: "u64 \<Rightarrow> u64 \<Rightarrow> ptr \<Rightarrow> DynIndex \<Rightarrow> DynIndex option" where
  "update_xf key key_pre new_b ix = do {
     let ix = ix\<lparr>m_min := min key (m_min ix), m_max := max key (m_max ix)\<rparr>;
     xf \<leftarrow> (if unat key_pre < length (m_xf ix)
            then Some ((m_xf ix)[unat key_pre := new_b]) else None);
     if unat (key_pre + 1) < length xf then do {
       let next_bucket = xf ! unat (key_pre + 1);
       do_fill \<leftarrow> (if next_bucket = None then Some True
                  else map_option (\<lambda>b. prefix b < key_pre) (deref (heap ix) next_bucket));
       Some (ix\<lparr>m_xf := (if do_fill then fill xf (unat (key_pre + 1)) next_bucket new_b else xf)\<rparr>)
     } else Some (ix\<lparr>m_xf := xf\<rparr>)
   }"

text \<open>\<open>DynIndex::insert\<close>, for the sampling parameter \<open>s = t_sampling\<close>.\<close>

definition insert_key :: "bool \<Rightarrow> nat \<Rightarrow> u64 \<Rightarrow> DynIndex \<Rightarrow> DynIndex option" where
  "insert_key t_list s key ix =
    (let key_pre = prefix_of s key; key_suf = suffix_of s key; new_b = Some (length (heap ix)) in
     if length (m_xf ix) \<le> unat key_pre then
       if m_size ix \<noteq> 0 then do {
         let h = heap ix @ [(set_b key_suf (new_bucket t_list key_pre))\<lparr>prev_pred := m_max ix\<rparr>];
         l \<leftarrow> vec_back (m_xf ix);
         h \<leftarrow> assign h l (\<lambda>b. b\<lparr>next_b := new_b\<rparr>);
         update_xf key key_pre new_b
           (ix\<lparr>heap := h, m_xf := resize (m_xf ix) (unat (prefix_of s key + 1)) l\<rparr>)
       } else do {
         let h = heap ix @ [set_b key_suf ((new_bucket t_list key_pre)\<lparr>next_b := m_first_b ix\<rparr>)];
         update_xf key key_pre new_b
           (ix\<lparr>m_min := key, m_max := key, heap := h, m_first_b := new_b,
               m_size := m_size ix + 1,
               m_xf := resize (m_xf ix) (unat (prefix_of s key + 1)) None\<rparr>)
       }
     else if key_pre < prefix_of s (m_min ix) then do {
       h \<leftarrow> assign (heap ix) (m_first_b ix) (\<lambda>b. b\<lparr>prev_pred := key\<rparr>);
       let h = h @ [set_b key_suf ((new_bucket t_list key_pre)\<lparr>prev_pred := 0, next_b := m_first_b ix\<rparr>)];
       update_xf key key_pre new_b (ix\<lparr>heap := h, m_first_b := new_b\<rparr>)
     } else do {
       let key_bucket = (m_xf ix) ! unat key_pre;
       kb \<leftarrow> deref (heap ix) key_bucket;
       if prefix kb = key_pre then do {
         h \<leftarrow> assign (heap ix) key_bucket (set_b key_suf);
         let next_bucket = next_b kb;
         h \<leftarrow> (if next_bucket \<noteq> None
                then assign h next_bucket (\<lambda>b. b\<lparr>prev_pred := max key (prev_pred b)\<rparr>)
                else Some h);
         Some (ix\<lparr>heap := h, m_min := min key (m_min ix), m_max := max key (m_max ix)\<rparr>)
       } else do {
         let h = heap ix @ [set_b key_suf ((new_bucket t_list key_pre)\<lparr>next_b := next_b kb\<rparr>)];
         h \<leftarrow> assign h key_bucket (\<lambda>b. b\<lparr>next_b := new_b\<rparr>);
         nb \<leftarrow> deref h new_b;
         nn \<leftarrow> deref h (next_b nb);
         h \<leftarrow> assign h new_b (\<lambda>b. b\<lparr>prev_pred := prev_pred nn\<rparr>);
         nb \<leftarrow> deref h new_b;
         h \<leftarrow> assign h (next_b nb) (\<lambda>b. b\<lparr>prev_pred := key\<rparr>);
         update_xf key key_pre new_b (ix\<lparr>heap := h\<rparr>)
       }
     })"

text \<open>A sequence of \<open>insert\<close> calls, in order.\<close>

fun inserts :: "bool \<Rightarrow> nat \<Rightarrow> u64 list \<Rightarrow> DynIndex \<Rightarrow> DynIndex option" where
  "inserts t_list s [] ix = Some ix"
| "inserts t_list s (k # ks) ix = insert_key t_list s k ix \<bind> inserts t_list s ks"

record Result =
  exists :: bool
  pos :: u64

text \<open>\<open>DynIndex::predecessor\<close>. The argument of \<open>pred\<close> is converted from \<open>uint64_t\<close> to
  \<open>int64_t\<close>.\<close>

definition predecessor :: "nat \<Rightarrow> DynIndex \<Rightarrow> u64 \<Rightarrow> Result option" where
  "predecessor s ix x =
     (if m_size ix = 0 then Some \<lparr>exists = False, pos = 1\<rparr>
      else if x < m_min ix then Some \<lparr>exists = False, pos = 0\<rparr>
      else if m_max ix \<le> x then Some \<lparr>exists = True, pos = m_max ix\<rparr>
      else do {
        p \<leftarrow> at (m_xf ix) (unat (prefix_of s x));
        b \<leftarrow> deref (heap ix) p;
        Some \<lparr>exists = True, pos = pred_b s b (sint (suffix_of s x))\<rparr>
      })"

text \<open>A client's run: a sequence of insertions into the index \<open>ix\<close>, then one query.\<close>

definition answer :: "bool \<Rightarrow> nat \<Rightarrow> DynIndex \<Rightarrow> u64 list \<Rightarrow> u64 \<Rightarrow> Result option" where
  "answer t_list s ix ks x = inserts t_list s ks ix \<bind> (\<lambda>ix'. predecessor s ix' x)"

subsection \<open>The abstract view of an index\<close>

text \<open>
  The set \<open>S\<close> of inserted keys determines what the index must look like. \<open>pf\<close> is the
  prefix of a key as a position of the top array; a prefix is occupied when some key of
  \<open>S\<close> has it.
\<close>

definition pf :: "nat \<Rightarrow> u64 \<Rightarrow> nat" where
  "pf s k = unat (prefix_of s k)"

definition occupied :: "nat \<Rightarrow> u64 set \<Rightarrow> nat set" where
  "occupied s S = pf s ` S"

text \<open>The greatest occupied prefix at or below a position, and the next occupied prefix
  above one.\<close>

definition own :: "nat set \<Rightarrow> nat \<Rightarrow> nat" where
  "own P i = Max {p \<in> P. p \<le> i}"

definition nxt :: "nat set \<Rightarrow> nat \<Rightarrow> nat" where
  "nxt P p = Min {q \<in> P. p < q}"

text \<open>The keys of a bucket, and the keys of all buckets before it.\<close>

definition bucket_keys :: "nat \<Rightarrow> u64 set \<Rightarrow> nat \<Rightarrow> u64 set" where
  "bucket_keys s S p = {k \<in> S. pf s k = p}"

definition lower_keys :: "nat \<Rightarrow> u64 set \<Rightarrow> nat \<Rightarrow> u64 set" where
  "lower_keys s S p = {k \<in> S. pf s k < p}"

text \<open>What a bucket stores for a set \<open>K\<close> of keys: the bitset holds their suffixes, the
  list holds their suffixes narrowed to 16 bits (in any order, possibly repeated).\<close>

definition store_ok :: "bool \<Rightarrow> nat \<Rightarrow> u64 set \<Rightarrow> store \<Rightarrow> bool" where
  "store_ok t_list s K st =
     (case st of
        bits bs \<Rightarrow> \<not> t_list \<and> bs = (\<lambda>k. unat (suffix_of s k)) ` K
      | list l \<Rightarrow> t_list \<and> set l = (\<lambda>k. ucast (suffix_of s k)) ` K)"

text \<open>An occupied prefix \<open>p\<close> is the last one before a position \<open>k\<close>, or the first one
  after it.\<close>

definition is_pred :: "nat set \<Rightarrow> nat \<Rightarrow> nat \<Rightarrow> bool" where
  "is_pred P k p \<longleftrightarrow> p < k \<and> (\<forall>q\<in>P. q < k \<longrightarrow> q \<le> p)"

definition is_succ :: "nat set \<Rightarrow> nat \<Rightarrow> nat \<Rightarrow> bool" where
  "is_succ P k p \<longleftrightarrow> k < p \<and> (\<forall>q\<in>P. k < q \<longrightarrow> p \<le> q)"

text \<open>The store of a fresh bucket after \<open>set(i)\<close>.\<close>

definition store1 :: "bool \<Rightarrow> u64 \<Rightarrow> store" where
  "store1 t_list i = (if t_list then list [ucast i] else bits {unat i})"

text \<open>What \<open>prev_pred\<close> and \<open>next_b\<close> of the bucket of an occupied prefix \<open>p\<close> must be:
  the greatest key of the buckets before it (0 when there is none), and the pointer the top
  array holds for the next occupied prefix (null when there is none).\<close>

definition prev_spec :: "nat \<Rightarrow> u64 set \<Rightarrow> nat \<Rightarrow> u64" where
  "prev_spec s S p = (if lower_keys s S p = {} then 0 else Max (lower_keys s S p))"

definition next_spec :: "nat set \<Rightarrow> ptr list \<Rightarrow> nat \<Rightarrow> ptr" where
  "next_spec P xf p = (if {q \<in> P. p < q} = {} then None else xf ! nxt P p)"

definition bucket_ok :: "bool \<Rightarrow> nat \<Rightarrow> u64 set \<Rightarrow> ptr list \<Rightarrow> nat \<Rightarrow> bucket \<Rightarrow> bool" where
  "bucket_ok t_list s S xf p b \<longleftrightarrow>
     unat (prefix b) = p \<and>
     prev_pred b = prev_spec s S p \<and>
     next_b b = next_spec (occupied s S) xf p \<and>
     store_ok t_list s (bucket_keys s S p) (store b)"

text \<open>The representation invariant of a non-empty index holding the keys \<open>S\<close>.\<close>

definition index_inv :: "bool \<Rightarrow> nat \<Rightarrow> u64 set \<Rightarrow> DynIndex \<Rightarrow> bool" where
  "index_inv t_list s S ix \<longleftrightarrow>
     finite S \<and> S \<noteq> {} \<and>
     m_size ix = 1 \<and> m_min ix = Min S \<and> m_max ix = Max S \<and>
     length (m_xf ix) = Suc (pf s (Max S)) \<and>
     m_first_b ix = m_xf ix ! pf s (Min S) \<and>
     (\<forall>i < pf s (Min S). m_xf ix ! i = None) \<and>
     (\<forall>i. pf s (Min S) \<le> i \<and> i \<le> pf s (Max S) \<longrightarrow>
        m_xf ix ! i = m_xf ix ! own (occupied s S) i) \<and>
     (\<forall>p \<in> occupied s S. \<exists>a < length (heap ix).
        m_xf ix ! p = Some a \<and> bucket_ok t_list s S (m_xf ix) p (heap ix ! a)) \<and>
     (\<forall>a < length (heap ix).
        unat (prefix (heap ix ! a)) \<in> occupied s S \<and>
        m_xf ix ! unat (prefix (heap ix ! a)) = Some a)"

text \<open>The buckets reached from a pointer by following \<open>next_b\<close> up to the null pointer.\<close>

fun linked :: "bucket list \<Rightarrow> ptr \<Rightarrow> nat list \<Rightarrow> bool" where
  "linked h p [] = (p = None)"
| "linked h p (a # as) = (p = Some a \<and> a < length h \<and> linked h (next_b (h ! a)) as)"

subsection \<open>What a query computes, in terms of the inserted keys\<close>



section \<open>The batched index\<close>










section \<open>The dynamic Octrie\<close>











subsection \<open>The keys of an Octrie in order\<close>








section \<open>Unsigned packed comparison\<close>

lemma take8: "take_bit 8 (uint (w :: 8 word)) = uint w"
  using uint_bounded [of w] by (simp add: take_bit_int_eq_self)

lemma sint_u8: "sint (w :: 8 word) = uint w - 256 * of_bool (bit w 7)"
  by (simp add: sint_uint signed_take_bit_eq_take_bit_minus bit_uint_iff take8)

lemma bit7: "bit (w :: 8 word) 7 \<longleftrightarrow> 128 \<le> uint w"
proof -
  have "uint w < 256" using uint_bounded [of w] by simp
  moreover have "0 \<le> uint w" by simp
  ultimately have "odd (uint w div 128) \<longleftrightarrow> 128 \<le> uint w"
    by presburger
  moreover have "bit w 7 = bit (uint w) 7" by (simp add: bit_uint_iff)
  ultimately show ?thesis
    by (simp only: bit_iff_odd) simp
qed

lemma uint_xor80: "uint ((w :: 8 word) XOR 0x80) = (if 128 \<le> uint w then uint w - 128 else uint w + 128)"
proof -
  have b: "uint w < 256" using uint_bounded [of w] by simp
  have "w XOR 0x80 = flip_bit 7 w" by (simp add: flip_bit_eq_xor)
  also have "\<dots> = (if 128 \<le> uint w then w - 128 else w + 128)"
    by (simp add: flip_bit_eq_if set_bit_eq unset_bit_eq bit7)
  finally have e: "w XOR 0x80 = (if 128 \<le> uint w then w - 128 else w + 128)" .
  show ?thesis
  proof (cases "128 \<le> uint w")
    case True
    then have "uint (w - 128) = uint w - 128"
      by (simp add: uint_sub_if')
    with True e show ?thesis by simp
  next
    case False
    then have "uint (w + 128) = uint w + 128"
      using b by (simp add: uint_plus_if')
    with False e show ?thesis by simp
  qed
qed

lemma sint_xor80: "sint ((w :: 8 word) XOR 0x80) = uint w - 128"
  using uint_bounded [of w]
  by (simp add: sint_u8 bit7 uint_xor80)

lemma signed_flip: "(sint (y XOR 0x80) < sint (x XOR 0x80)) = (y < x)" for x y :: "8 word"
  by (simp add: sint_xor80 word_less_def)

lemma bit_lane: "bit (lane w i) n = (n < 8 \<and> bit w (8 * i + n))"
  by (auto simp add: lane_def bit_ucast_iff bit_drop_bit_eq dest: bit_imp_le_length)

lemma bit_pack_lanes:
  "bit (pack_lanes xs) n = (n < 64 \<and> n div 8 < length xs \<and> bit (xs ! (n div 8)) (n mod 8))"
proof (induction xs arbitrary: n)
  case Nil
  then show ?case by simp
next
  case (Cons x xs)
  show ?case
  proof (cases "n < 8")
    case True
    then show ?thesis by (auto simp add: bit_or_iff bit_push_bit_iff bit_ucast_iff dest: bit_imp_le_length)
  next
    case False
    then obtain m where m: "n = m + 8" by (metis add.commute le_Suc_ex not_less)
    have d: "(m + 8) div 8 = Suc (m div 8)" "(m + 8) mod 8 = m mod 8" by simp_all
    have "bit (pack_lanes (x # xs)) (m + 8) = (m + 8 < 64 \<and> bit (pack_lanes xs) m)"
      by (auto simp add: bit_or_iff bit_push_bit_iff bit_ucast_iff dest: bit_imp_le_length)
    also have "\<dots> = (m + 8 < 64 \<and> m div 8 < length xs \<and> bit (xs ! (m div 8)) (m mod 8))"
      by (auto simp add: Cons.IH)
    finally show ?thesis unfolding m d by simp
  qed
qed

lemma lane_pack_lanes:
  assumes "i < length xs" "length xs \<le> 8"
  shows "lane (pack_lanes xs) i = xs ! i"
proof (rule bit_eqI)
  fix n
  show "bit (lane (pack_lanes xs) i) n = bit (xs ! i) n"
  proof (cases "n < 8")
    case True
    then have "(8 * i + n) div 8 = i" "(8 * i + n) mod 8 = n" by simp_all
    moreover have "8 * i + n < 64" using assms True by simp
    ultimately show ?thesis using assms True by (simp add: bit_lane bit_pack_lanes)
  next
    case False
    then show ?thesis by (auto simp add: bit_lane dest: bit_imp_le_length)
  qed
qed

lemma lane_XOR_MASK: "i < 8 \<Longrightarrow> lane XOR_MASK i = 0x80"
proof -
  assume "i < 8"
  then have "i = 0 \<or> i = 1 \<or> i = 2 \<or> i = 3 \<or> i = 4 \<or> i = 5 \<or> i = 6 \<or> i = 7" by arith
  then show ?thesis by (auto simp add: lane_def XOR_MASK_def)
qed

lemma lane_xor: "lane (a XOR b) i = lane a i XOR lane b i"
  by (rule bit_eqI) (auto simp add: bit_lane bit_xor_iff)

text \<open>
  Claim C8: for all 64-bit words \<open>a\<close> and \<open>b\<close> and every lane \<open>i\<close> in 0..7, lane
  \<open>i\<close> of \<open>pcmpgtub a b\<close> is \<open>0xFF\<close> if lane \<open>i\<close> of \<open>a\<close> is strictly greater
  than lane \<open>i\<close> of \<open>b\<close> as unsigned 8-bit integers, and \<open>0x00\<close> otherwise.
\<close>

theorem pcmpgtub_lanes:
  assumes "i < 8"
  shows "lane (pcmpgtub a b) i = (if lane b i < lane a i then 0xFF else 0x00)"
proof -
  have "lane (pcmpgtub a b) i =
      (if sint (lane b i XOR 0x80) < sint (lane a i XOR 0x80) then 0xFF else 0x00)"
    using assms
    by (simp add: pcmpgtub_def m_pcmpgtb_def mm_xor_si64_def lane_pack_lanes lane_xor lane_XOR_MASK)
  then show ?thesis
    by (simp only: signed_flip)
qed

theorem pcmpgtub_lanes_witness:
  "(6::nat) < 8 \<and> lane (pcmpgtub 0x0180FF7F00010203 0x027F807F01000204) 6 = 0xFF
    \<and> lane (pcmpgtub 0x0180FF7F00010203 0x027F807F01000204) 3 = 0x00"
  using pcmpgtub_lanes [of 6 "0x0180FF7F00010203" "0x027F807F01000204"]
    pcmpgtub_lanes [of 3 "0x0180FF7F00010203" "0x027F807F01000204"]
  by (simp add: lane_def)

section \<open>The list bucket\<close>

lemma ucast_less_16_64: "((ucast (a :: u16) :: u64) < ucast (b :: u16)) = (a < b)"
  by (simp add: word_less_def uint_up_ucast is_up)

lemma list_first_None: "list_first L i = None \<longleftrightarrow> (\<forall>e\<in>set L. \<not> uint e \<le> i)"
  by (induction L) auto

lemma list_first_Some:
  "list_first L i = Some (p, rest) \<Longrightarrow>
     \<exists>pre e es. L = pre @ e # es \<and> rest = e # es \<and> p = ucast e \<and> uint e \<le> i
       \<and> (\<forall>x\<in>set pre. \<not> uint x \<le> i)"
proof (induction L)
  case Nil
  then show ?case by simp
next
  case (Cons a L)
  show ?case
  proof (cases "uint a \<le> i")
    case True
    with Cons.prems have "rest = a # L" "p = ucast a" by auto
    with True show ?thesis by (intro exI [of _ "[]"] exI [of _ a] exI [of _ L]) simp
  next
    case False
    with Cons.prems have "list_first L i = Some (p, rest)" by simp
    from Cons.IH [OF this] obtain pre e es where
      "L = pre @ e # es" "rest = e # es" "p = ucast e" "uint e \<le> i" "\<forall>x\<in>set pre. \<not> uint x \<le> i"
      by blast
    with False show ?thesis
      by (intro exI [of _ "a # pre"] exI [of _ e] exI [of _ es]) simp
  qed
qed

lemma Max_insert_absorb:
  fixes a :: "'a :: linorder"
  assumes "finite A" "x \<in> A" "a \<le> x"
  shows "Max (Set.insert a A) = Max A"
proof -
  have "x \<le> Max A" using assms by simp
  with assms have "a \<le> Max A" by (meson order_trans)
  moreover have "A \<noteq> {}" using assms by auto
  ultimately show ?thesis using assms by (simp add: max_def)
qed

lemma list_rest_Max:
  "list_rest es i (ucast m) = ucast (Max (Set.insert m {e \<in> set es. uint e \<le> i}))"
proof (induction es arbitrary: m)
  case Nil
  then show ?case by simp
next
  case (Cons a es)
  let ?C = "{e \<in> set es. uint e \<le> i}"
  have fin: "finite ?C" by simp
  show ?case
  proof (cases "m < a \<and> uint a \<le> i")
    case True
    then have "{e \<in> set (a # es). uint e \<le> i} = Set.insert a ?C" by auto
    moreover have "Max (Set.insert m (Set.insert a ?C)) = Max (Set.insert a ?C)"
      using True fin by (intro Max_insert_absorb [of _ a]) (simp_all add: less_imp_le)
    ultimately show ?thesis using True by (simp add: ucast_less_16_64 Cons.IH)
  next
    case False
    then have "Max (Set.insert m {e \<in> set (a # es). uint e \<le> i}) = Max (Set.insert m ?C)"
    proof (cases "uint a \<le> i")
      case True
      with False have "a \<le> m" by simp
      moreover from True have "{e \<in> set (a # es). uint e \<le> i} = Set.insert a ?C" by auto
      moreover have "Max (Set.insert a (Set.insert m ?C)) = Max (Set.insert m ?C)"
        using \<open>a \<le> m\<close> fin by (intro Max_insert_absorb [of _ m]) simp_all
      ultimately show ?thesis
        by (simp add: insert_commute)
    next
      case False
      then have "{e \<in> set (a # es). uint e \<le> i} = ?C" by auto
      then show ?thesis by simp
    qed
    then show ?thesis using False by (auto simp add: ucast_less_16_64 Cons.IH)
  qed
qed

lemma pred_b_list_max:
  assumes "store b = list L"
  shows "pred_b s b i =
     (if \<exists>e\<in>set L. uint e \<le> i
      then push_bit s (prefix b) + ucast (Max {e \<in> set L. uint e \<le> i})
      else prev_pred b)"
proof (cases "list_first L i")
  case None
  then have "\<not> (\<exists>e\<in>set L. uint e \<le> i)" by (simp add: list_first_None)
  with None assms show ?thesis by (simp add: pred_b_def)
next
  case (Some a)
  obtain p0 rest where a: "a = (p0, rest)" by (cases a)
  from list_first_Some [OF Some [unfolded a]] obtain pre e es where
    *: "L = pre @ e # es" "rest = e # es" "p0 = ucast e" "uint e \<le> i" "\<forall>x\<in>set pre. \<not> uint x \<le> i"
    by blast
  have "{x \<in> set L. uint x \<le> i} = Set.insert e {x \<in> set es. uint x \<le> i}"
    using * by auto
  moreover have "list_rest rest i p0 = ucast (Max (Set.insert e {x \<in> set es. uint x \<le> i}))"
    unfolding * by (simp add: list_rest_Max [of es i e])
  moreover have "\<exists>x\<in>set L. uint x \<le> i" using * by auto
  ultimately show ?thesis using Some a assms by (simp add: pred_b_def)
qed

text \<open>
  Claim C4: for every list bucket with prefix \<open>p\<close>, \<open>prev_pred\<close> value \<open>q\<close> and stored
  suffixes \<open>L\<close>, and every query \<open>i\<close>, \<open>bucket_list::pred(i)\<close> returns
  \<open>(p << s) + max {e \<in> L. e \<le> i}\<close> when some element of \<open>L\<close> is at most \<open>i\<close>, and
  \<open>q\<close> otherwise. It holds for every \<open>int64_t\<close> value of \<open>i\<close>, in particular for
  the suffixes in \<open>[0, 2^s)\<close>.
\<close>

theorem bucket_list_pred:
  "pred_b s \<lparr>prefix = p, prev_pred = q, next_b = n, store = list L\<rparr> i =
     (if \<exists>e\<in>set L. uint e \<le> i
      then push_bit s p + ucast (Max {e \<in> set L. uint e \<le> i})
      else q)"
  using pred_b_list_max [of "\<lparr>prefix = p, prev_pred = q, next_b = n, store = list L\<rparr>" L s i]
  by simp

theorem bucket_list_pred_witness:
  "pred_b 6 \<lparr>prefix = 3, prev_pred = 17, next_b = None, store = list [40, 8, 20, 12]\<rparr> 15 = 204
   \<and> pred_b 6 \<lparr>prefix = 3, prev_pred = 17, next_b = None, store = list [40, 8, 20, 12]\<rparr> 7 = 17"
  using bucket_list_pred [of 6 3 17 None "[40, 8, 20, 12]" 15]
    bucket_list_pred [of 6 3 17 None "[40, 8, 20, 12]" 7]
  by (simp add: pred_b_def)

section \<open>The representation invariant of the index\<close>

subsection \<open>Prefixes\<close>

lemma pf_div: "pf s k = unat k div 2 ^ s"
  unfolding pf_def prefix_of_def unat_drop_bit_eq by (simp add: drop_bit_eq_div)

lemma pf_mono: "k \<le> k' \<Longrightarrow> pf s k \<le> pf s k'"
  by (simp add: pf_div word_le_nat_alt div_le_mono)

lemma pf_bound: "0 < s \<Longrightarrow> pf s k < 2 ^ 63"
proof -
  assume "0 < s"
  have k: "unat k < 2 ^ 64" using unsigned_less [of k, where 'a = nat] by simp
  have "(2::nat) ^ 1 \<le> 2 ^ s" using \<open>0 < s\<close> by (intro power_increasing) simp_all
  then have "unat k div 2 ^ s \<le> unat k div 2 ^ 1"
    by (intro div_le_mono2) simp_all
  also have "\<dots> < 2 ^ 63" using k by simp
  finally show ?thesis by (simp add: pf_div)
qed

lemma unat_prefix_succ: "0 < s \<Longrightarrow> unat (prefix_of s k + 1) = Suc (pf s k)"
  using pf_bound [of s k] by (simp add: pf_def unat_word_ariths)

lemma prefix_less_iff: "prefix_of s k < prefix_of s k' \<longleftrightarrow> pf s k < pf s k'"
  by (simp add: pf_def word_less_nat_alt)

lemma pf_Min: "finite S \<Longrightarrow> S \<noteq> {} \<Longrightarrow> pf s (Min S) = Min (occupied s S)"
  unfolding occupied_def by (intro mono_Min_commute monoI pf_mono)

subsection \<open>Occupied prefixes\<close>

lemma own_props:
  assumes "finite P" "p \<in> P" "p \<le> i"
  shows "own P i \<in> P" "own P i \<le> i" "p \<le> own P i"
proof -
  let ?A = "{q \<in> P. q \<le> i}"
  have fin: "finite ?A" using assms by simp
  have ne: "?A \<noteq> {}" using assms by auto
  from Max_in [OF fin ne] show "own P i \<in> P" "own P i \<le> i" by (simp_all add: own_def)
  show "p \<le> own P i" unfolding own_def using fin assms by (intro Max_ge) simp_all
qed

lemma own_eqI:
  assumes "finite P" "q \<in> P" "q \<le> i" "\<And>p. p \<in> P \<Longrightarrow> p \<le> i \<Longrightarrow> p \<le> q"
  shows "own P i = q"
  unfolding own_def using assms by (intro Max_eqI) auto

lemma own_self: "finite P \<Longrightarrow> p \<in> P \<Longrightarrow> own P p = p"
  by (rule own_eqI) auto

lemma nxt_props:
  assumes "finite P" "q \<in> P" "p < q"
  shows "nxt P p \<in> P" "p < nxt P p" "nxt P p \<le> q"
proof -
  let ?A = "{r \<in> P. p < r}"
  have fin: "finite ?A" using assms by simp
  have ne: "?A \<noteq> {}" using assms by auto
  from Min_in [OF fin ne] show "nxt P p \<in> P" "p < nxt P p" by (simp_all add: nxt_def)
  show "nxt P p \<le> q" unfolding nxt_def using fin assms by (intro Min_le) simp_all
qed

lemma nxt_eqI:
  assumes "finite P" "q \<in> P" "p < q" "\<And>r. r \<in> P \<Longrightarrow> p < r \<Longrightarrow> q \<le> r"
  shows "nxt P p = q"
  unfolding nxt_def using assms by (intro Min_eqI) auto

subsection \<open>The fill loop\<close>

lemma length_fill [simp]: "length (fill xf j nb new) = length xf"
proof (induction xf j nb new rule: fill.induct)
  case (1 xf j nb new)
  show ?case
  proof (cases "j < length xf \<and> nb = xf ! j")
    case True
    then have "fill xf j nb new = fill (xf[j := new]) (j + 1) nb new"
      by (subst fill.simps) simp
    with True "1.IH" show ?thesis by simp
  next
    case False
    then have "fill xf j nb new = xf"
      by (subst fill.simps) auto
    then show ?thesis by simp
  qed
qed

lemma fill_nth:
  assumes "e \<le> length xf" "j \<le> e" "\<forall>i. j \<le> i \<and> i < e \<longrightarrow> xf ! i = nb"
    "e < length xf \<longrightarrow> xf ! e \<noteq> nb" "i < length xf"
  shows "fill xf j nb new ! i = (if j \<le> i \<and> i < e then new else xf ! i)"
  using assms
proof (induction xf j nb new rule: fill.induct)
  case (1 xf j nb new)
  show ?case
  proof (cases "j < length xf \<and> nb = xf ! j")
    case True
    have je: "j < e"
    proof (rule ccontr)
      assume "\<not> j < e"
      with "1.prems"(2) have "j = e" by simp
      with True "1.prems"(4) show False by simp
    qed
    have st: "fill xf j nb new = fill (xf[j := new]) (j + 1) nb new"
      using True by (subst fill.simps) simp
    have "fill (xf[j := new]) (j + 1) nb new ! i =
        (if j + 1 \<le> i \<and> i < e then new else xf[j := new] ! i)"
    proof (rule "1.IH")
      show "j < length xf \<and> nb = xf ! j" by (rule True)
      show "e \<le> length (xf[j := new])" using "1.prems"(1) by simp
      show "j + 1 \<le> e" using je by simp
      show "\<forall>i. j + 1 \<le> i \<and> i < e \<longrightarrow> xf[j := new] ! i = nb"
        using "1.prems"(3) by simp
      show "e < length (xf[j := new]) \<longrightarrow> xf[j := new] ! e \<noteq> nb"
        using "1.prems"(4) je by simp
      show "i < length (xf[j := new])" using "1.prems"(5) by simp
    qed
    then show ?thesis using True je unfolding st
      by (cases "i = j") simp_all
  next
    case False
    have "j = e"
    proof (rule ccontr)
      assume "j \<noteq> e"
      with "1.prems"(2) have "j < e" by simp
      with "1.prems"(1,3) False show False by auto
    qed
    moreover have "fill xf j nb new = xf"
      using False by (subst fill.simps) auto
    ultimately show ?thesis by auto
  qed
qed

subsection \<open>Building blocks of insert\<close>

lemma occupied_insert: "occupied s (Set.insert k S) = Set.insert (pf s k) (occupied s S)"
  by (simp add: occupied_def)

lemma occupied_finite: "finite S \<Longrightarrow> finite (occupied s S)"
  by (simp add: occupied_def)

lemma length_resize [simp]: "length (resize xs n v) = n"
  by (simp add: resize_def)

lemma nth_resize: "i < n \<Longrightarrow> resize xs n v ! i = (if i < length xs then xs ! i else v)"
  by (simp add: resize_def nth_append)

lemma update_xf_plain:
  assumes "0 < s" "pf s key < length (m_xf ix)"
    and "Suc (pf s key) < length (m_xf ix) \<Longrightarrow>
          \<exists>c. m_xf ix ! Suc (pf s key) = Some c \<and> c < length (heap ix)
            \<and> \<not> prefix (heap ix ! c) < prefix_of s key"
  shows "update_xf key (prefix_of s key) nb ix =
    Some (ix\<lparr>m_min := min key (m_min ix), m_max := max key (m_max ix),
              m_xf := (m_xf ix)[pf s key := nb]\<rparr>)"
proof (cases "Suc (pf s key) < length (m_xf ix)")
  case True
  from assms(3) [OF True] obtain c where
    "m_xf ix ! Suc (pf s key) = Some c" "c < length (heap ix)"
    "\<not> prefix (heap ix ! c) < prefix_of s key" by blast
  then show ?thesis using assms(2) True
    by (simp add: update_xf_def unat_prefix_succ [OF assms(1)] pf_def [symmetric] deref_def)
next
  case False
  then show ?thesis using assms(2)
    by (simp add: update_xf_def unat_prefix_succ [OF assms(1)] pf_def [symmetric])
qed

lemma update_xf_fill:
  assumes "0 < s" "Suc (pf s key) < length (m_xf ix)"
    and "m_xf ix ! Suc (pf s key) = None \<or>
          (\<exists>c. m_xf ix ! Suc (pf s key) = Some c \<and> c < length (heap ix)
            \<and> prefix (heap ix ! c) < prefix_of s key)"
  shows "update_xf key (prefix_of s key) nb ix =
    Some (ix\<lparr>m_min := min key (m_min ix), m_max := max key (m_max ix),
              m_xf := fill ((m_xf ix)[pf s key := nb]) (Suc (pf s key))
                        (m_xf ix ! Suc (pf s key)) nb\<rparr>)"
  using assms(2,3)
  by (auto simp add: update_xf_def unat_prefix_succ [OF assms(1)] pf_def [symmetric] deref_def)

lemma set_b_update [simp]:
  "set_b i (b\<lparr>next_b := n\<rparr>) = (set_b i b)\<lparr>next_b := n\<rparr>"
  "set_b i (b\<lparr>prev_pred := q\<rparr>) = (set_b i b)\<lparr>prev_pred := q\<rparr>"
  by (simp_all add: set_b_def split: store.splits)

lemma set_b_new [simp]:
  "set_b i (new_bucket t_list pre) =
     \<lparr>prefix = pre, prev_pred = 0, next_b = None, store = store1 t_list i\<rparr>"
  by (simp add: set_b_def new_bucket_def store1_def)

lemma set_b_fields [simp]:
  "prefix (set_b i b) = prefix b" "prev_pred (set_b i b) = prev_pred b"
  "next_b (set_b i b) = next_b b"
  by (simp_all add: set_b_def split: store.splits)

lemma store_ok_store1: "store_ok t_list s {key} (store1 t_list (suffix_of s key))"
  by (simp add: store_ok_def store1_def)

lemma store_ok_set_b:
  "store_ok t_list s K (store b) \<Longrightarrow>
   store_ok t_list s (Set.insert key K) (store (set_b (suffix_of s key) b))"
  by (auto simp add: store_ok_def set_b_def split: store.splits)

lemma index_invI:
  assumes "finite S" "S \<noteq> {}" "m_size ix = 1" "m_min ix = Min S" "m_max ix = Max S"
    "length (m_xf ix) = Suc (pf s (Max S))"
    "m_first_b ix = m_xf ix ! pf s (Min S)"
    "\<And>i. i < pf s (Min S) \<Longrightarrow> m_xf ix ! i = None"
    "\<And>i. pf s (Min S) \<le> i \<Longrightarrow> i \<le> pf s (Max S) \<Longrightarrow>
        m_xf ix ! i = m_xf ix ! own (occupied s S) i"
    "\<And>p. p \<in> occupied s S \<Longrightarrow> \<exists>a < length (heap ix).
        m_xf ix ! p = Some a \<and> bucket_ok t_list s S (m_xf ix) p (heap ix ! a)"
    "\<And>a. a < length (heap ix) \<Longrightarrow>
        unat (prefix (heap ix ! a)) \<in> occupied s S \<and>
        m_xf ix ! unat (prefix (heap ix ! a)) = Some a"
  shows "index_inv t_list s S ix"
  unfolding index_inv_def using assms by blast

lemma insert_first:
  assumes "0 < s"
  shows "\<exists>ix'. insert_key t_list s key (empty_index g_min g_max) = Some ix'
           \<and> index_inv t_list s {key} ix'"
proof -
  let ?kp = "pf s key"
  let ?nb = "\<lparr>prefix = prefix_of s key, prev_pred = 0, next_b = None,
      store = store1 t_list (suffix_of s key)\<rparr>"
  let ?ix = "\<lparr>m_size = 1, m_min = key, m_max = key, m_xf = (resize [] (Suc ?kp) None)[?kp := Some 0],
     m_first_b = Some 0, heap = [?nb]\<rparr>"
  have u: "unat (prefix_of s key) = ?kp" by (simp add: pf_def)
  have "insert_key t_list s key (empty_index g_min g_max) =
      update_xf key (prefix_of s key) (Some 0)
        \<lparr>m_size = 1, m_min = key, m_max = key, m_xf = resize [] (Suc ?kp) None,
          m_first_b = Some 0, heap = [?nb]\<rparr>"
    by (simp add: insert_key_def empty_index_def Let_def unat_prefix_succ [OF assms])
  also have "\<dots> = Some ?ix"
    by (subst update_xf_plain [OF assms]) simp_all
  finally have 1: "insert_key t_list s key (empty_index g_min g_max) = Some ?ix" .
  have occ: "occupied s {key} = {?kp}" by (simp add: occupied_def)
  have own: "own {?kp} ?kp = ?kp" by (rule own_self) simp_all
  have bk: "bucket_keys s {key} ?kp = {key}" by (auto simp add: bucket_keys_def)
  have lk: "lower_keys s {key} ?kp = {}" by (auto simp add: lower_keys_def)
  have "index_inv t_list s {key} ?ix"
  proof (rule index_invI)
    fix i assume "pf s (Min {key}) \<le> i" "i \<le> pf s (Max {key})"
    then have "i = ?kp" by simp
    then show "m_xf ?ix ! i = m_xf ?ix ! own (occupied s {key}) i"
      by (simp add: occ own)
  next
    fix p assume "p \<in> occupied s {key}"
    then have "p = ?kp" by (simp add: occ)
    then show "\<exists>a<length (heap ?ix). m_xf ?ix ! p = Some a \<and>
        bucket_ok t_list s {key} (m_xf ?ix) p (heap ?ix ! a)"
      by (simp add: bucket_ok_def u occ bk lk prev_spec_def next_spec_def store_ok_store1)
  qed (simp_all add: occ u nth_resize)
  with 1 show ?thesis by blast
qed


subsection \<open>Inserting a key into the abstract view\<close>

lemma own_insert:
  assumes "finite P"
  shows "own (Set.insert k P) i = (if k \<le> i \<and> (\<forall>p\<in>P. k < p \<longrightarrow> i < p) then k else own P i)"
proof (cases "k \<le> i \<and> (\<forall>p\<in>P. k < p \<longrightarrow> i < p)")
  case True
  then have "own (Set.insert k P) i = k"
    using assms by (intro own_eqI) (auto simp add: not_less [symmetric])
  with True show ?thesis by simp
next
  case False
  show ?thesis
  proof (cases "k \<le> i")
    case True
    with False obtain p where p: "p \<in> P" "k < p" "p \<le> i" by (auto simp add: not_less)
    have "own (Set.insert k P) i = own P i"
    proof (rule own_eqI)
      show "own P i \<in> Set.insert k P" "own P i \<le> i" using own_props [OF assms p(1,3)] by simp_all
      fix q assume "q \<in> Set.insert k P" "q \<le> i"
      then show "q \<le> own P i"
        using own_props(3) [OF assms, of q i] own_props(3) [OF assms p(1,3)] p(2) by auto
    qed (use assms in simp)
    with False show ?thesis by auto
  next
    case False
    then have "{p \<in> Set.insert k P. p \<le> i} = {p \<in> P. p \<le> i}" by auto
    with False show ?thesis by (simp add: own_def)
  qed
qed

lemma nxt_insert:
  assumes "finite P" "{q \<in> P. p < q} \<noteq> {} \<or> p < k"
  shows "nxt (Set.insert k P) p = (if p < k \<and> (\<forall>q\<in>P. p < q \<longrightarrow> k \<le> q) then k else nxt P p)"
proof (cases "p < k \<and> (\<forall>q\<in>P. p < q \<longrightarrow> k \<le> q)")
  case True
  then have "nxt (Set.insert k P) p = k"
    using assms by (intro nxt_eqI) auto
  with True show ?thesis by simp
next
  case False
  show ?thesis
  proof (cases "p < k")
    case True
    with False obtain q where q: "q \<in> P" "p < q" "q < k" by (auto simp add: not_le)
    have "nxt (Set.insert k P) p = nxt P p"
    proof (rule nxt_eqI)
      show "nxt P p \<in> Set.insert k P" "p < nxt P p" using nxt_props [OF assms(1) q(1,2)] by simp_all
      fix r assume "r \<in> Set.insert k P" "p < r"
      then show "nxt P p \<le> r"
        using nxt_props(3) [OF assms(1), of r p] nxt_props(3) [OF assms(1) q(1,2)] q(3) by auto
    qed (use assms in simp)
    with False show ?thesis by auto
  next
    case False
    then have "{q \<in> Set.insert k P. p < q} = {q \<in> P. p < q}" by auto
    with False show ?thesis by (simp add: nxt_def)
  qed
qed

lemma bucket_keys_insert:
  "bucket_keys s (Set.insert key S) p =
     (if pf s key = p then Set.insert key (bucket_keys s S p) else bucket_keys s S p)"
  by (auto simp add: bucket_keys_def)

lemma lower_keys_insert:
  "lower_keys s (Set.insert key S) p =
     (if pf s key < p then Set.insert key (lower_keys s S p) else lower_keys s S p)"
  by (auto simp add: lower_keys_def)

lemma pf_less_imp_less: "pf s k < pf s k' \<Longrightarrow> k < k'"
  using pf_mono [of k' k s] by (auto simp add: not_le [symmetric])

lemma lower_keys_finite: "finite S \<Longrightarrow> finite (lower_keys s S p)"
  by (simp add: lower_keys_def)

lemma prev_spec_insert_below:
  "p \<le> pf s key \<Longrightarrow> prev_spec s (Set.insert key S) p = prev_spec s S p"
  by (simp add: prev_spec_def lower_keys_insert)

lemma prev_spec_insert_above:
  assumes "finite S" "pf s key < p"
  shows "prev_spec s (Set.insert key S) p =
     (if lower_keys s S p = {} then key else max key (prev_spec s S p))"
  using assms by (simp add: prev_spec_def lower_keys_insert lower_keys_finite)

lemma prev_spec_insert_far:
  assumes "finite S" "k' \<in> S" "pf s key < pf s k'" "pf s k' < p"
  shows "prev_spec s (Set.insert key S) p = prev_spec s S p"
proof -
  have in_l: "k' \<in> lower_keys s S p" using assms by (simp add: lower_keys_def)
  then have "k' \<le> Max (lower_keys s S p)"
    using assms(1) by (intro Max_ge lower_keys_finite)
  moreover have "key < k'" using assms(3) by (rule pf_less_imp_less)
  ultimately have "key \<le> Max (lower_keys s S p)" by simp
  moreover have "prev_spec s S p = Max (lower_keys s S p)"
    using in_l by (auto simp add: prev_spec_def)
  moreover have "prev_spec s (Set.insert key S) p = max key (prev_spec s S p)"
    using in_l assms(1,4) prev_spec_insert_above [of S s key p] assms(3) by auto
  ultimately show ?thesis by (simp add: max_def)
qed

lemma prev_spec_insert_next:
  assumes "finite S" "pf s key < p" "\<And>k'. k' \<in> S \<Longrightarrow> pf s k' < p \<Longrightarrow> pf s k' < pf s key"
  shows "prev_spec s (Set.insert key S) p = key"
proof (cases "lower_keys s S p = {}")
  case True
  then show ?thesis using assms by (simp add: prev_spec_insert_above)
next
  case False
  have "Max (lower_keys s S p) \<in> lower_keys s S p"
    using False assms(1) by (intro Max_in lower_keys_finite)
  then have "pf s (Max (lower_keys s S p)) < pf s key"
    using assms(3) by (simp add: lower_keys_def)
  then have "Max (lower_keys s S p) < key" by (rule pf_less_imp_less)
  moreover have "prev_spec s S p = Max (lower_keys s S p)"
    using False by (simp add: prev_spec_def)
  moreover have "prev_spec s (Set.insert key S) p = max key (prev_spec s S p)"
    using False prev_spec_insert_above [OF assms(1,2)] by simp
  ultimately show ?thesis by (simp add: max_absorb1 less_imp_le)
qed


subsection \<open>Preservation of the invariant, abstractly\<close>

lemma index_invD:
  assumes "index_inv t_list s S ix"
  shows "finite S" "S \<noteq> {}" "m_size ix = 1" "m_min ix = Min S" "m_max ix = Max S"
    "length (m_xf ix) = Suc (pf s (Max S))"
    "m_first_b ix = m_xf ix ! pf s (Min S)"
    "\<And>i. i < pf s (Min S) \<Longrightarrow> m_xf ix ! i = None"
    "\<And>i. pf s (Min S) \<le> i \<Longrightarrow> i \<le> pf s (Max S) \<Longrightarrow>
        m_xf ix ! i = m_xf ix ! own (occupied s S) i"
    "\<And>p. p \<in> occupied s S \<Longrightarrow> \<exists>a < length (heap ix).
        m_xf ix ! p = Some a \<and> bucket_ok t_list s S (m_xf ix) p (heap ix ! a)"
    "\<And>a. a < length (heap ix) \<Longrightarrow> unat (prefix (heap ix ! a)) \<in> occupied s S"
    "\<And>a. a < length (heap ix) \<Longrightarrow> m_xf ix ! unat (prefix (heap ix ! a)) = Some a"
  using assms unfolding index_inv_def by blast+

lemma occupied_bounds:
  assumes "finite S" "S \<noteq> {}"
  shows "pf s (Min S) \<in> occupied s S" "pf s (Max S) \<in> occupied s S"
    "\<And>p. p \<in> occupied s S \<Longrightarrow> pf s (Min S) \<le> p \<and> p \<le> pf s (Max S)"
proof -
  show "pf s (Min S) \<in> occupied s S" "pf s (Max S) \<in> occupied s S"
    using assms by (simp_all add: occupied_def)
  fix p assume "p \<in> occupied s S"
  then obtain k where "k \<in> S" "p = pf s k" by (auto simp add: occupied_def)
  then show "pf s (Min S) \<le> p \<and> p \<le> pf s (Max S)"
    using assms by (auto intro!: pf_mono)
qed

lemma pf_min: "pf s (min a b) = min (pf s a) (pf s b)"
  using pf_mono [of a b s] pf_mono [of b a s] by (auto simp add: min_def)

lemma pf_max: "pf s (max a b) = max (pf s a) (pf s b)"
  using pf_mono [of a b s] pf_mono [of b a s] by (auto simp add: max_def)


lemma inv_new_bucket:
  assumes inv: "index_inv t_list s S ix"
    and new: "pf s key \<notin> occupied s S"
    and sz: "m_size ix' = 1" "m_min ix' = min key (m_min ix)" "m_max ix' = max key (m_max ix)"
    and first: "m_first_b ix' =
        (if pf s key < pf s (Min S) then Some (length (heap ix)) else m_first_b ix)"
    and lenxf: "length (m_xf ix') = Suc (max (pf s key) (pf s (Max S)))"
    and xf: "\<And>i. i < length (m_xf ix') \<Longrightarrow> m_xf ix' ! i =
        (if pf s key \<le> i \<and> (\<forall>p\<in>occupied s S. pf s key < p \<longrightarrow> i < p)
         then Some (length (heap ix)) else m_xf ix ! min i (pf s (Max S)))"
    and lenh: "length (heap ix') = Suc (length (heap ix))"
    and newb: "prefix (heap ix' ! length (heap ix)) = prefix_of s key"
      "prev_pred (heap ix' ! length (heap ix)) = prev_spec s S (pf s key)"
      "next_b (heap ix' ! length (heap ix)) = next_spec (occupied s S) (m_xf ix) (pf s key)"
      "store (heap ix' ! length (heap ix)) = store1 t_list (suffix_of s key)"
    and old: "\<And>a. a < length (heap ix) \<Longrightarrow>
        prefix (heap ix' ! a) = prefix (heap ix ! a) \<and>
        store (heap ix' ! a) = store (heap ix ! a) \<and>
        next_b (heap ix' ! a) =
          (if is_pred (occupied s S) (pf s key) (unat (prefix (heap ix ! a)))
           then Some (length (heap ix)) else next_b (heap ix ! a)) \<and>
        prev_pred (heap ix' ! a) =
          (if is_succ (occupied s S) (pf s key) (unat (prefix (heap ix ! a)))
           then key else prev_pred (heap ix ! a))"
  shows "index_inv t_list s (Set.insert key S) ix'"
proof -
  let ?P = "occupied s S" and ?kp = "pf s key" and ?n = "length (heap ix)"
  let ?S' = "Set.insert key S"
  let ?mn = "pf s (Min S)" and ?mx = "pf s (Max S)"
  note D = index_invD [OF inv]
  have finP: "finite ?P" using D(1) by (rule occupied_finite)
  have P': "occupied s ?S' = Set.insert ?kp ?P" by (rule occupied_insert)
  note B = occupied_bounds [OF D(1,2), where s = s]
  have Min': "Min ?S' = min key (Min S)" and Max': "Max ?S' = max key (Max S)"
    using D(1,2) by simp_all
  have pmn': "pf s (Min ?S') = min ?kp ?mn" and pmx': "pf s (Max ?S') = max ?kp ?mx"
    by (simp_all only: Min' Max' pf_min pf_max)
  define cov where "cov i \<longleftrightarrow> ?kp \<le> i \<and> (\<forall>p\<in>?P. ?kp < p \<longrightarrow> i < p)" for i
  have own': "own (Set.insert ?kp ?P) i = (if cov i then ?kp else own ?P i)" for i
    unfolding cov_def by (rule own_insert [OF finP])
  have ncov: "\<not> cov p" if "p \<in> ?P" for p
  proof
    assume "cov p"
    moreover from that new have "p \<noteq> ?kp" by auto
    ultimately have "?kp < p" "p < p" using that by (auto simp add: cov_def)
    then show False by simp
  qed
  have covk: "cov ?kp" by (simp add: cov_def)
  have xf': "m_xf ix' ! i = (if cov i then Some ?n else m_xf ix ! min i ?mx)"
    if "i \<le> max ?kp ?mx" for i
    using xf [of i] that lenxf by (simp add: cov_def)
  have xf_old: "m_xf ix' ! p = m_xf ix ! p" if "p \<in> ?P" for p
    using xf' [of p] ncov [OF that] B(3) [OF that] by (auto simp add: min_absorb1 le_max_iff_disj)
  have xf_kp: "m_xf ix' ! ?kp = Some ?n"
    using xf' [of ?kp] covk by simp
  show ?thesis
  proof (rule index_invI)
    show "finite ?S'" "?S' \<noteq> {}" using D(1) by simp_all
    show "m_size ix' = 1" by (rule sz)
    show "m_min ix' = Min ?S'" "m_max ix' = Max ?S'"
      by (simp_all add: sz D(4,5) Min' Max')
    show "length (m_xf ix') = Suc (pf s (Max ?S'))"
      by (simp add: lenxf pmx')
    show "m_first_b ix' = m_xf ix' ! pf s (Min ?S')"
    proof (cases "?kp < ?mn")
      case True
      then show ?thesis by (simp add: first pmn' min_absorb1 xf_kp)
    next
      case False
      then have "min ?kp ?mn = ?mn" by simp
      then show ?thesis using False by (simp add: first pmn' xf_old [OF B(1)] D(7))
    qed
  next
    fix i assume "i < pf s (Min ?S')"
    then have i: "i < ?kp" "i < ?mn" by (simp_all add: pmn')
    then have "\<not> cov i" by (simp add: cov_def)
    moreover have "i \<le> ?mx" using i B(3) [OF B(1)] by simp
    ultimately show "m_xf ix' ! i = None"
      using xf' [of i] D(8) [OF i(2)] by (auto simp add: min_absorb1 le_max_iff_disj)
  next
    fix i assume "pf s (Min ?S') \<le> i" "i \<le> pf s (Max ?S')"
    then have i: "min ?kp ?mn \<le> i" "i \<le> max ?kp ?mx" by (simp_all add: pmn' pmx')
    show "m_xf ix' ! i = m_xf ix' ! own (occupied s ?S') i"
    proof (cases "cov i")
      case True
      then show ?thesis using xf' [OF i(2)] xf_kp by (simp add: P' own')
    next
      case False
      have mn_i: "?mn \<le> i"
      proof (rule ccontr)
        assume "\<not> ?mn \<le> i"
        then have "i < ?mn" by simp
        with i(1) have "?kp \<le> i" by simp
        moreover have "i < p" if "p \<in> ?P" for p using B(3) [OF that] \<open>i < ?mn\<close> by simp
        ultimately have "cov i" by (simp add: cov_def)
        with False show False by simp
      qed
      note o = own_props [OF finP B(1) mn_i]
      have "m_xf ix ! min i ?mx = m_xf ix ! own ?P i"
      proof (cases "i \<le> ?mx")
        case True
        then show ?thesis using D(9) [OF mn_i True] by (simp add: min_absorb1)
      next
        case False
        then have "own ?P i = ?mx"
          using B finP by (intro own_eqI) auto
        with False show ?thesis by (simp add: min_absorb2)
      qed
      then show ?thesis
        using False xf' [OF i(2)] xf_old [OF o(1)] by (simp add: P' own')
    qed
  next
    fix p assume "p \<in> occupied s ?S'"
    then consider "p = ?kp" | "p \<in> ?P" "p \<noteq> ?kp" by (auto simp add: P')
    then show "\<exists>a<length (heap ix'). m_xf ix' ! p = Some a \<and>
        bucket_ok t_list s ?S' (m_xf ix') p (heap ix' ! a)"
    proof cases
      case 1
      have "k \<notin> S" if "pf s k = ?kp" for k
        using new that by (metis imageI occupied_def)
      then have bk: "bucket_keys s ?S' ?kp = {key}"
        by (auto simp add: bucket_keys_def)
      have ab: "{q \<in> Set.insert ?kp ?P. ?kp < q} = {q \<in> ?P. ?kp < q}" by auto
      have "next_spec (occupied s ?S') (m_xf ix') ?kp = next_spec ?P (m_xf ix) ?kp"
      proof (cases "{q \<in> ?P. ?kp < q} = {}")
        case True
        then show ?thesis unfolding next_spec_def P' ab by simp
      next
        case False
        then obtain q where q: "q \<in> ?P" "?kp < q" by auto
        have "nxt (Set.insert ?kp ?P) ?kp = nxt ?P ?kp"
          using False by (simp add: nxt_insert [OF finP])
        moreover have "m_xf ix' ! nxt ?P ?kp = m_xf ix ! nxt ?P ?kp"
          using nxt_props(1) [OF finP q] by (rule xf_old)
        ultimately show ?thesis using False unfolding next_spec_def P' ab by auto
      qed
      then have "bucket_ok t_list s ?S' (m_xf ix') ?kp (heap ix' ! ?n)"
        by (simp add: bucket_ok_def newb pf_def [symmetric] prev_spec_insert_below bk
            store_ok_store1)
      then show ?thesis using 1 xf_kp lenh by auto
    next
      case c2: 2
      from D(10) [OF c2(1)] obtain a where a: "a < ?n" "m_xf ix ! p = Some a"
        "bucket_ok t_list s S (m_xf ix) p (heap ix ! a)" by blast
      then have pa: "unat (prefix (heap ix ! a)) = p" by (simp add: bucket_ok_def)
      note o = old [OF a(1), unfolded pa]
      have f1: "unat (prefix (heap ix' ! a)) = p" using o pa by simp
      have f2: "store_ok t_list s (bucket_keys s ?S' p) (store (heap ix' ! a))"
        using a(3) o c2(2) by (simp add: bucket_ok_def bucket_keys_insert)
      have f3: "prev_pred (heap ix' ! a) = prev_spec s ?S' p"
      proof (cases "p < ?kp")
        case True
        then have "\<not> is_succ ?P ?kp p" by (simp add: is_succ_def)
        then show ?thesis using True o a(3)
          by (simp add: bucket_ok_def prev_spec_insert_below)
      next
        case False
        with c2(2) have kp: "?kp < p" by simp
        show ?thesis
        proof (cases "is_succ ?P ?kp p")
          case True
          have "prev_spec s ?S' p = key"
          proof (rule prev_spec_insert_next [OF D(1) kp])
            fix k' assume k': "k' \<in> S" "pf s k' < p"
            then have in_P: "pf s k' \<in> ?P" by (simp add: occupied_def)
            with new have "pf s k' \<noteq> ?kp" by auto
            moreover have "\<not> ?kp < pf s k'"
              using True in_P k'(2) by (auto simp add: is_succ_def)
            ultimately show "pf s k' < ?kp" by simp
          qed
          then show ?thesis using True o by simp
        next
          case False
          with kp obtain q where q: "q \<in> ?P" "?kp < q" "q < p"
            by (auto simp add: is_succ_def not_le)
          then obtain k' where k': "k' \<in> S" "q = pf s k'" by (auto simp add: occupied_def)
          have "prev_spec s ?S' p = prev_spec s S p"
            using prev_spec_insert_far [OF D(1) k'(1)] q k'(2) by simp
          then show ?thesis using False o a(3) by (simp add: bucket_ok_def)
        qed
      qed
      have f4: "next_b (heap ix' ! a) = next_spec (occupied s ?S') (m_xf ix') p"
      proof (cases "is_pred ?P ?kp p")
        case True
        then have "p < ?kp" "\<And>q. q \<in> ?P \<Longrightarrow> p < q \<Longrightarrow> ?kp \<le> q"
          by (auto simp add: is_pred_def not_less [symmetric])
        then have "nxt (Set.insert ?kp ?P) p = ?kp" "{q \<in> Set.insert ?kp ?P. p < q} \<noteq> {}"
          using finP by (auto simp add: nxt_insert)
        then show ?thesis using True o xf_kp unfolding next_spec_def P' by auto
      next
        case False
        have "next_spec (Set.insert ?kp ?P) (m_xf ix') p = next_spec ?P (m_xf ix) p"
        proof (cases "{q \<in> ?P. p < q} = {}")
          case True
          have "\<not> p < ?kp"
          proof
            assume "p < ?kp"
            moreover have "q \<le> p" if "q \<in> ?P" for q using True that by (auto simp add: not_less [symmetric])
            ultimately have "is_pred ?P ?kp p" by (simp add: is_pred_def)
            with False show False by simp
          qed
          then have "{q \<in> Set.insert ?kp ?P. p < q} = {}" using True by auto
          with True show ?thesis unfolding next_spec_def by auto
        next
          case ne: False
          then obtain q0 where q0: "q0 \<in> ?P" "p < q0" by auto
          have "\<not> (p < ?kp \<and> (\<forall>q\<in>?P. p < q \<longrightarrow> ?kp \<le> q))"
          proof
            assume *: "p < ?kp \<and> (\<forall>q\<in>?P. p < q \<longrightarrow> ?kp \<le> q)"
            then have "q \<le> p" if "q \<in> ?P" "q < ?kp" for q
              using that by (auto simp add: not_less [symmetric])
            with * have "is_pred ?P ?kp p" by (simp add: is_pred_def)
            with False show False by simp
          qed
          then have "nxt (Set.insert ?kp ?P) p = nxt ?P p"
            using ne nxt_insert [OF finP, of p ?kp] by auto
          moreover have "m_xf ix' ! nxt ?P p = m_xf ix ! nxt ?P p"
            using nxt_props(1) [OF finP q0] by (rule xf_old)
          moreover have "{q \<in> Set.insert ?kp ?P. p < q} \<noteq> {}" using q0 by auto
          ultimately show ?thesis using ne unfolding next_spec_def by auto
        qed
        then show ?thesis using False o a(3) by (simp add: bucket_ok_def P')
      qed
      have "bucket_ok t_list s ?S' (m_xf ix') p (heap ix' ! a)"
        using f1 f2 f3 f4 by (simp add: bucket_ok_def)
      then show ?thesis using a(1,2) xf_old [OF c2(1)] lenh by auto
    qed
  next
    fix a assume "a < length (heap ix')"
    then consider "a = ?n" | "a < ?n" using lenh by (auto simp add: less_Suc_eq)
    then show "unat (prefix (heap ix' ! a)) \<in> occupied s ?S' \<and>
        m_xf ix' ! unat (prefix (heap ix' ! a)) = Some a"
    proof cases
      case 1
      then show ?thesis using xf_kp by (simp add: newb P' pf_def [symmetric])
    next
      case 2
      from old [OF 2] have "prefix (heap ix' ! a) = prefix (heap ix ! a)" by simp
      then show ?thesis using D(11,12) [OF 2] xf_old [OF D(11) [OF 2]] by (simp add: P')
    qed
  qed
qed


lemma is_succ_iff:
  assumes "finite P" "p \<in> P"
  shows "is_succ P k p \<longleftrightarrow> p = nxt P k \<and> (\<exists>q\<in>P. k < q)"
proof
  assume "is_succ P k p"
  then have "k < p" "\<And>q. q \<in> P \<Longrightarrow> k < q \<Longrightarrow> p \<le> q" by (auto simp add: is_succ_def)
  then have "nxt P k = p" using assms by (intro nxt_eqI) auto
  with \<open>k < p\<close> assms show "p = nxt P k \<and> (\<exists>q\<in>P. k < q)" by auto
next
  assume *: "p = nxt P k \<and> (\<exists>q\<in>P. k < q)"
  then obtain q where q: "q \<in> P" "k < q" by auto
  from nxt_props(2) [OF assms(1) q] * have "k < p" by simp
  moreover have "p \<le> r" if "r \<in> P" "k < r" for r
    using nxt_props(3) [OF assms(1) that] * by simp
  ultimately show "is_succ P k p" by (simp add: is_succ_def)
qed

lemma is_pred_iff:
  assumes "finite P" "p \<in> P" "k \<notin> P"
  shows "is_pred P k p \<longleftrightarrow> p = own P k \<and> (\<exists>q\<in>P. q \<le> k)"
proof
  assume "is_pred P k p"
  then have p: "p < k" "\<And>q. q \<in> P \<Longrightarrow> q < k \<Longrightarrow> q \<le> p" by (auto simp add: is_pred_def)
  have "own P k = p"
  proof (rule own_eqI [OF assms(1,2)])
    show "p \<le> k" using p(1) by simp
    fix q assume "q \<in> P" "q \<le> k"
    with assms(3) have "q < k" by (cases "q = k") auto
    with \<open>q \<in> P\<close> show "q \<le> p" by (rule p(2))
  qed
  with p(1) assms show "p = own P k \<and> (\<exists>q\<in>P. q \<le> k)" by (auto intro: less_imp_le)
next
  assume *: "p = own P k \<and> (\<exists>q\<in>P. q \<le> k)"
  then obtain q where q: "q \<in> P" "q \<le> k" by auto
  note o = own_props [OF assms(1) q]
  from o(2) * assms(2,3) have "p < k" by (cases "p = k") auto
  moreover have "r \<le> p" if "r \<in> P" "r < k" for r
    using own_props(3) [OF assms(1) that(1), of k] that(2) * by simp
  ultimately show "is_pred P k p" by (simp add: is_pred_def)
qed

lemma inv_same_bucket:
  assumes inv: "index_inv t_list s S ix"
    and occ: "pf s key \<in> occupied s S"
    and sz: "m_size ix' = 1" "m_min ix' = min key (m_min ix)" "m_max ix' = max key (m_max ix)"
    and same: "m_first_b ix' = m_first_b ix" "m_xf ix' = m_xf ix"
      "length (heap ix') = length (heap ix)"
    and old: "\<And>a. a < length (heap ix) \<Longrightarrow>
        prefix (heap ix' ! a) = prefix (heap ix ! a) \<and>
        next_b (heap ix' ! a) = next_b (heap ix ! a) \<and>
        store (heap ix' ! a) =
          (if unat (prefix (heap ix ! a)) = pf s key
           then store (set_b (suffix_of s key) (heap ix ! a)) else store (heap ix ! a)) \<and>
        prev_pred (heap ix' ! a) =
          (if is_succ (occupied s S) (pf s key) (unat (prefix (heap ix ! a)))
           then max key (prev_pred (heap ix ! a)) else prev_pred (heap ix ! a))"
  shows "index_inv t_list s (Set.insert key S) ix'"
proof -
  let ?P = "occupied s S" and ?kp = "pf s key"
  let ?S' = "Set.insert key S"
  let ?mn = "pf s (Min S)" and ?mx = "pf s (Max S)"
  note D = index_invD [OF inv]
  have finP: "finite ?P" using D(1) by (rule occupied_finite)
  have P': "occupied s ?S' = ?P" using occ by (auto simp add: occupied_insert)
  note B = occupied_bounds [OF D(1,2), where s = s]
  have Min': "Min ?S' = min key (Min S)" and Max': "Max ?S' = max key (Max S)"
    using D(1,2) by simp_all
  have pmn': "pf s (Min ?S') = ?mn" and pmx': "pf s (Max ?S') = ?mx"
    using B(3) [OF occ] by (simp_all only: Min' Max' pf_min pf_max) simp_all
  obtain k0 where k0: "k0 \<in> S" "pf s k0 = ?kp" using occ by (auto simp add: occupied_def)
  show ?thesis
  proof (rule index_invI)
    show "finite ?S'" "?S' \<noteq> {}" using D(1) by simp_all
    show "m_size ix' = 1" by (rule sz)
    show "m_min ix' = Min ?S'" "m_max ix' = Max ?S'"
      by (simp_all add: sz D(4,5) Min' Max')
    show "length (m_xf ix') = Suc (pf s (Max ?S'))" by (simp add: same pmx' D(6))
    show "m_first_b ix' = m_xf ix' ! pf s (Min ?S')" by (simp add: same pmn' D(7))
  next
    fix i assume "i < pf s (Min ?S')"
    then show "m_xf ix' ! i = None" by (simp add: same pmn' D(8))
  next
    fix i assume "pf s (Min ?S') \<le> i" "i \<le> pf s (Max ?S')"
    then show "m_xf ix' ! i = m_xf ix' ! own (occupied s ?S') i"
      by (simp add: same pmn' pmx' P' D(9))
  next
    fix p assume "p \<in> occupied s ?S'"
    then have p: "p \<in> ?P" by (simp add: P')
    from D(10) [OF p] obtain a where a: "a < length (heap ix)" "m_xf ix ! p = Some a"
      "bucket_ok t_list s S (m_xf ix) p (heap ix ! a)" by blast
    then have pa: "unat (prefix (heap ix ! a)) = p" by (simp add: bucket_ok_def)
    note o = old [OF a(1), unfolded pa]
    have f2: "store_ok t_list s (bucket_keys s ?S' p) (store (heap ix' ! a))"
      using a(3) o by (auto simp add: bucket_ok_def bucket_keys_insert store_ok_set_b)
    have f3: "prev_pred (heap ix' ! a) = prev_spec s ?S' p"
    proof (cases "p \<le> ?kp")
      case True
      then have "\<not> is_succ ?P ?kp p" by (simp add: is_succ_def)
      then show ?thesis using True o a(3)
        by (simp add: bucket_ok_def prev_spec_insert_below)
    next
      case False
      then have kp: "?kp < p" by simp
      have ne: "lower_keys s S p \<noteq> {}" using k0 kp by (auto simp add: lower_keys_def)
      show ?thesis
      proof (cases "is_succ ?P ?kp p")
        case True
        then show ?thesis using o a(3) ne kp
          by (simp add: bucket_ok_def prev_spec_insert_above [OF D(1)])
      next
        case False
        with kp obtain q where q: "q \<in> ?P" "?kp < q" "q < p"
          by (auto simp add: is_succ_def not_le)
        then obtain k' where k': "k' \<in> S" "q = pf s k'" by (auto simp add: occupied_def)
        have "prev_spec s ?S' p = prev_spec s S p"
          using prev_spec_insert_far [OF D(1) k'(1)] q k'(2) by simp
        then show ?thesis using False o a(3) by (simp add: bucket_ok_def)
      qed
    qed
    have "bucket_ok t_list s ?S' (m_xf ix') p (heap ix' ! a)"
      using f2 f3 o pa a(3) by (simp add: bucket_ok_def P' same)
    then show "\<exists>a<length (heap ix'). m_xf ix' ! p = Some a \<and>
        bucket_ok t_list s ?S' (m_xf ix') p (heap ix' ! a)"
      using a(1,2) by (auto simp add: same)
  next
    fix a assume "a < length (heap ix')"
    then have a: "a < length (heap ix)" by (simp add: same)
    from old [OF a] have "prefix (heap ix' ! a) = prefix (heap ix ! a)" by simp
    then show "unat (prefix (heap ix' ! a)) \<in> occupied s ?S' \<and>
        m_xf ix' ! unat (prefix (heap ix' ! a)) = Some a"
      using D(11,12) [OF a] by (simp add: P' same)
  qed
qed


subsection \<open>The cases of insert\<close>

lemma word_eq_unat: "unat (a :: u64) = unat b \<Longrightarrow> a = b"
  by (simp add: word_unat_eq_iff)

lemma next_spec_empty: "{q \<in> P. p < q} = {} \<Longrightarrow> next_spec P xf p = None"
  by (simp add: next_spec_def)

lemma next_spec_nonempty: "q \<in> P \<Longrightarrow> p < q \<Longrightarrow> next_spec P xf p = xf ! nxt P p"
proof -
  assume "q \<in> P" "p < q"
  then have "{q \<in> P. p < q} \<noteq> {}" by blast
  then show ?thesis by (simp only: next_spec_def if_False)
qed

lemma insert_exact:
  assumes inv: "index_inv t_list s S ix" and s: "0 < s"
    and occ: "pf s key \<in> occupied s S"
  shows "\<exists>ix'. insert_key t_list s key ix = Some ix' \<and> index_inv t_list s (Set.insert key S) ix'"
proof -
  let ?P = "occupied s S" and ?kp = "pf s key"
  let ?h = "heap ix" and ?xf = "m_xf ix"
  note D = index_invD [OF inv]
  have finP: "finite ?P" using D(1) by (rule occupied_finite)
  note B = occupied_bounds [OF D(1,2), where s = s]
  from D(10) [OF occ] obtain a where a: "a < length ?h" "?xf ! ?kp = Some a"
    "bucket_ok t_list s S ?xf ?kp (?h ! a)" by blast
  have pa: "prefix (?h ! a) = prefix_of s key"
    using a(3) by (intro word_eq_unat) (simp add: bucket_ok_def pf_def)
  have nx: "next_b (?h ! a) = next_spec ?P ?xf ?kp" using a(3) by (simp add: bucket_ok_def)
  have c1: "\<not> length ?xf \<le> unat (prefix_of s key)"
    using B(3) [OF occ] D(6) by (simp add: pf_def)
  have c2: "\<not> prefix_of s key < prefix_of s (m_min ix)"
    using B(3) [OF occ] by (simp add: prefix_less_iff D(4))
  have uniq: "a' = b" if "a' < length ?h" "unat (prefix (?h ! a')) = p" "?xf ! p = Some b" for a' b p
    using D(12) [OF that(1)] that(2,3) by simp
  define h1 where "h1 = ?h[a := set_b (suffix_of s key) (?h ! a)]"
  show ?thesis
  proof (cases "next_b (?h ! a)")
    case None
    let ?ix' = "ix\<lparr>heap := h1, m_min := min key (m_min ix), m_max := max key (m_max ix)\<rparr>"
    have emp: "{q \<in> ?P. ?kp < q} = {}"
    proof (rule ccontr)
      assume ne: "{q \<in> ?P. ?kp < q} \<noteq> {}"
      then obtain q where q: "q \<in> ?P" "?kp < q" by auto
      from D(10) [OF nxt_props(1) [OF finP q]] obtain c where "?xf ! nxt ?P ?kp = Some c"
        by blast
      then have "next_spec ?P ?xf ?kp = Some c" by (simp only: next_spec_nonempty [OF q])
      with nx None show False by simp
    qed
    have "insert_key t_list s key ix = Some ?ix'"
      using c1 c2 a(1,2) pa None
      by (simp add: insert_key_def Let_def deref_def assign_def pf_def h1_def)
    moreover have "index_inv t_list s (Set.insert key S) ?ix'"
    proof (rule inv_same_bucket [OF inv occ])
      fix a' assume a': "a' < length (heap ix)"
      have "\<not> is_succ ?P ?kp (unat (prefix (?h ! a')))"
        using emp is_succ_iff [OF finP D(11) [OF a'], of ?kp] by auto
      moreover have "unat (prefix (?h ! a')) = ?kp \<longleftrightarrow> a' = a"
        using uniq [OF a' _ a(2)] pa by (auto simp add: pf_def)
      ultimately show "prefix (heap ?ix' ! a') = prefix (?h ! a') \<and>
        next_b (heap ?ix' ! a') = next_b (?h ! a') \<and>
        store (heap ?ix' ! a') =
          (if unat (prefix (?h ! a')) = ?kp
           then store (set_b (suffix_of s key) (?h ! a')) else store (?h ! a')) \<and>
        prev_pred (heap ?ix' ! a') =
          (if is_succ ?P ?kp (unat (prefix (?h ! a')))
           then max key (prev_pred (?h ! a')) else prev_pred (?h ! a'))"
        using a' a(1) by (auto simp add: h1_def nth_list_update)
    qed (simp_all add: D(3) h1_def)
    ultimately show ?thesis by blast
  next
    case (Some c)
    have "{q \<in> ?P. ?kp < q} \<noteq> {}"
    proof
      assume "{q \<in> ?P. ?kp < q} = {}"
      then have "next_spec ?P ?xf ?kp = None" by (rule next_spec_empty)
      with nx Some show False by simp
    qed
    then obtain q where q: "q \<in> ?P" "?kp < q" by blast
    have xc: "?xf ! nxt ?P ?kp = Some c"
      using Some nx by (simp add: next_spec_nonempty [OF q])
    note r = nxt_props [OF finP q]
    from D(10) [OF r(1)] obtain c' where c': "c' < length ?h" "?xf ! nxt ?P ?kp = Some c'"
      "bucket_ok t_list s S ?xf (nxt ?P ?kp) (?h ! c')" by blast
    with xc have "c' = c" by simp
    with c' have c: "c < length ?h" "bucket_ok t_list s S ?xf (nxt ?P ?kp) (?h ! c)"
      by simp_all
    then have pc: "unat (prefix (?h ! c)) = nxt ?P ?kp" by (simp add: bucket_ok_def)
    have ca: "c \<noteq> a"
    proof
      assume "c = a"
      with pc pa have "nxt ?P ?kp = ?kp" by (simp add: pf_def)
      with r(2) show False by simp
    qed
    let ?h2 = "h1[c := (?h ! c)\<lparr>prev_pred := max key (prev_pred (?h ! c))\<rparr>]"
    let ?ix' = "ix\<lparr>heap := ?h2, m_min := min key (m_min ix), m_max := max key (m_max ix)\<rparr>"
    have "insert_key t_list s key ix = Some ?ix'"
      using c1 c2 a(1,2) pa Some c(1) ca
      by (simp add: insert_key_def Let_def deref_def assign_def pf_def h1_def)
    moreover have "index_inv t_list s (Set.insert key S) ?ix'"
    proof (rule inv_same_bucket [OF inv occ])
      fix a' assume a': "a' < length (heap ix)"
      have "is_succ ?P ?kp (unat (prefix (?h ! a'))) \<longleftrightarrow> a' = c"
      proof
        assume "is_succ ?P ?kp (unat (prefix (?h ! a')))"
        then have "unat (prefix (?h ! a')) = nxt ?P ?kp"
          using is_succ_iff [OF finP D(11) [OF a'], of ?kp] by simp
        then show "a' = c" using xc by (rule uniq [OF a'])
      next
        assume "a' = c"
        then show "is_succ ?P ?kp (unat (prefix (?h ! a')))"
          using is_succ_iff [OF finP r(1), of ?kp] q pc by auto
      qed
      moreover have "unat (prefix (?h ! a')) = ?kp \<longleftrightarrow> a' = a"
        using uniq [OF a' _ a(2)] pa by (auto simp add: pf_def)
      ultimately show "prefix (heap ?ix' ! a') = prefix (?h ! a') \<and>
        next_b (heap ?ix' ! a') = next_b (?h ! a') \<and>
        store (heap ?ix' ! a') =
          (if unat (prefix (?h ! a')) = ?kp
           then store (set_b (suffix_of s key) (?h ! a')) else store (?h ! a')) \<and>
        prev_pred (heap ?ix' ! a') =
          (if is_succ ?P ?kp (unat (prefix (?h ! a')))
           then max key (prev_pred (?h ! a')) else prev_pred (?h ! a'))"
        using a' a(1) c(1) ca by (auto simp add: h1_def nth_list_update)
    qed (simp_all add: D(3) h1_def)
    ultimately show ?thesis by blast
  qed
qed


lemma insert_above:
  assumes inv: "index_inv t_list s S ix" and s: "0 < s"
    and above: "pf s (Max S) < pf s key"
  shows "\<exists>ix'. insert_key t_list s key ix = Some ix' \<and> index_inv t_list s (Set.insert key S) ix'"
proof -
  let ?P = "occupied s S" and ?kp = "pf s key" and ?mx = "pf s (Max S)"
  let ?h = "heap ix" and ?xf = "m_xf ix" and ?n = "length (heap ix)"
  note D = index_invD [OF inv]
  have finP: "finite ?P" using D(1) by (rule occupied_finite)
  note B = occupied_bounds [OF D(1,2), where s = s]
  have lt: "p < ?kp" if "p \<in> ?P" for p using B(3) [OF that] above by simp
  then have new: "?kp \<notin> ?P" by blast
  from D(10) [OF B(2)] obtain l where l: "l < ?n" "?xf ! ?mx = Some l"
    "bucket_ok t_list s S ?xf ?mx (?h ! l)" by blast
  then have pl: "unat (prefix (?h ! l)) = ?mx" by (simp add: bucket_ok_def)
  have bk: "vec_back ?xf = Some (Some l)"
    using D(6) l(2) by (auto simp add: vec_back_def last_conv_nth)
  let ?nb = "\<lparr>prefix = prefix_of s key, prev_pred = m_max ix, next_b = None,
      store = store1 t_list (suffix_of s key)\<rparr>"
  let ?h' = "(?h @ [?nb])[l := (?h ! l)\<lparr>next_b := Some ?n\<rparr>]"
  let ?xf1 = "resize ?xf (Suc ?kp) (Some l)"
  let ?ix1 = "ix\<lparr>heap := ?h', m_xf := ?xf1\<rparr>"
  let ?ix' = "?ix1\<lparr>m_min := min key (m_min ix), m_max := max key (m_max ix),
      m_xf := ?xf1[?kp := Some ?n]\<rparr>"
  have c1: "length ?xf \<le> unat (prefix_of s key)"
    using above D(6) by (simp add: pf_def)
  have "insert_key t_list s key ix = update_xf key (prefix_of s key) (Some ?n) ?ix1"
    using c1 bk l(1) D(3)
    by (simp add: insert_key_def Let_def assign_def nth_append unat_prefix_succ [OF s])
  also have "\<dots> = Some ?ix'"
    by (subst update_xf_plain [OF s]) simp_all
  finally have 1: "insert_key t_list s key ix = Some ?ix'" .
  have "index_inv t_list s (Set.insert key S) ?ix'"
  proof (rule inv_new_bucket [OF inv new])
    show "m_first_b ?ix' = (if ?kp < pf s (Min S) then Some ?n else m_first_b ix)"
      using lt [OF B(1)] by simp
    show "length (m_xf ?ix') = Suc (max ?kp ?mx)" using above by (simp add: max_absorb1)
  next
    fix i assume "i < length (m_xf ?ix')"
    then have i: "i \<le> ?kp" by simp
    have cov: "(?kp \<le> i \<and> (\<forall>p\<in>?P. ?kp < p \<longrightarrow> i < p)) \<longleftrightarrow> i = ?kp"
      using i lt by (auto simp add: not_less [symmetric])
    show "m_xf ?ix' ! i =
        (if ?kp \<le> i \<and> (\<forall>p\<in>?P. ?kp < p \<longrightarrow> i < p)
         then Some ?n else ?xf ! min i ?mx)"
      unfolding cov using i l(2) D(6)
      by (auto simp add: nth_list_update nth_resize min_def)
  next
    have "lower_keys s S ?kp = S"
      using lt by (auto simp add: lower_keys_def occupied_def)
    then show "prev_pred (heap ?ix' ! ?n) = prev_spec s S ?kp"
      using l(1) D(2,5) by (simp add: prev_spec_def nth_list_update nth_append)
    have "{q \<in> ?P. ?kp < q} = {}" by (auto dest: lt)
    then show "next_b (heap ?ix' ! ?n) = next_spec ?P ?xf ?kp"
      using l(1) by (simp add: next_spec_empty nth_list_update nth_append)
    show "prefix (heap ?ix' ! ?n) = prefix_of s key"
      "store (heap ?ix' ! ?n) = store1 t_list (suffix_of s key)"
      using l(1) by (simp_all add: nth_list_update nth_append)
  next
    fix a assume a: "a < ?n"
    have "\<not> is_succ ?P ?kp (unat (prefix (?h ! a)))"
      using lt [OF D(11) [OF a]] by (simp add: is_succ_def)
    moreover have "is_pred ?P ?kp (unat (prefix (?h ! a))) \<longleftrightarrow> a = l"
    proof
      assume "is_pred ?P ?kp (unat (prefix (?h ! a)))"
      then have "?mx \<le> unat (prefix (?h ! a))" using B(2) lt by (simp add: is_pred_def)
      with B(3) [OF D(11) [OF a]] have "unat (prefix (?h ! a)) = ?mx" by simp
      with D(12) [OF a] l(2) show "a = l" by simp
    next
      assume "a = l"
      then show "is_pred ?P ?kp (unat (prefix (?h ! a)))"
        using pl above B(3) by (simp add: is_pred_def)
    qed
    ultimately show "prefix (heap ?ix' ! a) = prefix (?h ! a) \<and>
        store (heap ?ix' ! a) = store (?h ! a) \<and>
        next_b (heap ?ix' ! a) =
          (if is_pred ?P ?kp (unat (prefix (?h ! a))) then Some ?n else next_b (?h ! a)) \<and>
        prev_pred (heap ?ix' ! a) =
          (if is_succ ?P ?kp (unat (prefix (?h ! a))) then key else prev_pred (?h ! a))"
      using a l(1) by (auto simp add: nth_list_update nth_append)
  qed (simp_all add: D(3))
  with 1 show ?thesis by blast
qed


lemma update_xf_range:
  assumes s: "0 < s" and r: "pf s key < r" "r < length (m_xf ix)"
    and const: "\<And>i. pf s key < i \<Longrightarrow> i < r \<Longrightarrow> m_xf ix ! i = m_xf ix ! Suc (pf s key)"
    and gap: "Suc (pf s key) < r \<Longrightarrow> m_xf ix ! Suc (pf s key) = None \<or>
          (\<exists>c. m_xf ix ! Suc (pf s key) = Some c \<and> c < length (heap ix)
            \<and> prefix (heap ix ! c) < prefix_of s key)"
    and nxt: "\<exists>c. m_xf ix ! r = Some c \<and> c < length (heap ix)
            \<and> \<not> prefix (heap ix ! c) < prefix_of s key"
    and diff: "Suc (pf s key) < r \<Longrightarrow> m_xf ix ! r \<noteq> m_xf ix ! Suc (pf s key)"
  shows "\<exists>xf'. update_xf key (prefix_of s key) nb ix =
      Some (ix\<lparr>m_min := min key (m_min ix), m_max := max key (m_max ix), m_xf := xf'\<rparr>)
    \<and> length xf' = length (m_xf ix)
    \<and> (\<forall>i<length (m_xf ix). xf' ! i = (if pf s key \<le> i \<and> i < r then nb else m_xf ix ! i))"
proof (cases "Suc (pf s key) < r")
  case True
  let ?kp = "pf s key" and ?xf = "m_xf ix"
  let ?xf' = "fill (?xf[?kp := nb]) (Suc ?kp) (?xf ! Suc ?kp) nb"
  have 1: "update_xf key (prefix_of s key) nb ix =
      Some (ix\<lparr>m_min := min key (m_min ix), m_max := max key (m_max ix), m_xf := ?xf'\<rparr>)"
    using True r gap [OF True] by (intro update_xf_fill [OF s]) simp_all
  have "?xf' ! i = (if ?kp \<le> i \<and> i < r then nb else ?xf ! i)" if i: "i < length ?xf" for i
  proof -
    have "?xf' ! i = (if Suc ?kp \<le> i \<and> i < r then nb else ?xf[?kp := nb] ! i)"
    proof (rule fill_nth)
      show "r \<le> length (?xf[?kp := nb])" using r by simp
      show "Suc ?kp \<le> r" using True by simp
      show "\<forall>i. Suc ?kp \<le> i \<and> i < r \<longrightarrow> ?xf[?kp := nb] ! i = ?xf ! Suc ?kp"
      proof (intro allI impI)
        fix j assume j: "Suc ?kp \<le> j \<and> j < r"
        have "?xf[?kp := nb] ! j = ?xf ! j" using j by simp
        also have "\<dots> = ?xf ! Suc ?kp" using j by (intro const) simp_all
        finally show "?xf[?kp := nb] ! j = ?xf ! Suc ?kp" .
      qed
      show "r < length (?xf[?kp := nb]) \<longrightarrow> ?xf[?kp := nb] ! r \<noteq> ?xf ! Suc ?kp"
        using diff [OF True] r by simp
      show "i < length (?xf[?kp := nb])" using i by simp
    qed
    then show ?thesis using i r by (auto simp add: nth_list_update)
  qed
  with 1 show ?thesis by (intro exI [of _ ?xf']) simp
next
  case False
  with r have e: "r = Suc (pf s key)" by simp
  let ?kp = "pf s key" and ?xf = "m_xf ix"
  have "update_xf key (prefix_of s key) nb ix =
      Some (ix\<lparr>m_min := min key (m_min ix), m_max := max key (m_max ix), m_xf := ?xf[?kp := nb]\<rparr>)"
    using r nxt unfolding e by (intro update_xf_plain [OF s]) simp_all
  then show ?thesis using r unfolding e
    by (intro exI [of _ "?xf[?kp := nb]"]) (auto simp add: nth_list_update)
qed


lemma prefix_less_unat: "(a :: u64) < prefix_of s key \<longleftrightarrow> unat a < pf s key"
  by (simp add: pf_def word_less_nat_alt)

lemma insert_below:
  assumes inv: "index_inv t_list s S ix" and s: "0 < s"
    and below: "pf s key < pf s (Min S)"
  shows "\<exists>ix'. insert_key t_list s key ix = Some ix' \<and> index_inv t_list s (Set.insert key S) ix'"
proof -
  let ?P = "occupied s S" and ?kp = "pf s key" and ?mx = "pf s (Max S)" and ?mn = "pf s (Min S)"
  let ?h = "heap ix" and ?xf = "m_xf ix" and ?n = "length (heap ix)"
  note D = index_invD [OF inv]
  have finP: "finite ?P" using D(1) by (rule occupied_finite)
  note B = occupied_bounds [OF D(1,2), where s = s]
  have lt: "?kp < p" if "p \<in> ?P" for p using B(3) [OF that] below by simp
  then have new: "?kp \<notin> ?P" by blast
  from D(10) [OF B(1)] obtain f where f: "f < ?n" "?xf ! ?mn = Some f"
    "bucket_ok t_list s S ?xf ?mn (?h ! f)" by blast
  then have pfx: "unat (prefix (?h ! f)) = ?mn" by (simp add: bucket_ok_def)
  have fb: "m_first_b ix = Some f" using D(7) f(2) by simp
  let ?nb = "\<lparr>prefix = prefix_of s key, prev_pred = 0, next_b = Some f,
      store = store1 t_list (suffix_of s key)\<rparr>"
  let ?h' = "?h[f := (?h ! f)\<lparr>prev_pred := key\<rparr>] @ [?nb]"
  let ?ix1 = "ix\<lparr>heap := ?h', m_first_b := Some ?n\<rparr>"
  have c1: "\<not> length ?xf \<le> unat (prefix_of s key)"
    using below B(3) [OF B(1)] D(6) by (simp add: pf_def)
  have c2: "prefix_of s key < prefix_of s (m_min ix)"
    using below by (simp add: prefix_less_iff D(4))
  have 1: "insert_key t_list s key ix = update_xf key (prefix_of s key) (Some ?n) ?ix1"
    using c1 c2 fb f(1) by (simp add: insert_key_def Let_def assign_def)
  have "\<exists>xf'. update_xf key (prefix_of s key) (Some ?n) ?ix1 =
      Some (?ix1\<lparr>m_min := min key (m_min ?ix1), m_max := max key (m_max ?ix1), m_xf := xf'\<rparr>)
    \<and> length xf' = length (m_xf ?ix1)
    \<and> (\<forall>i<length (m_xf ?ix1). xf' ! i =
          (if ?kp \<le> i \<and> i < ?mn then Some ?n else m_xf ?ix1 ! i))"
  proof (rule update_xf_range [OF s])
    show "?kp < ?mn" by (rule below)
    show "?mn < length (m_xf ?ix1)" using B(3) [OF B(1)] D(6) by simp
    show "m_xf ?ix1 ! i = m_xf ?ix1 ! Suc ?kp" if "?kp < i" "i < ?mn" for i
      using that D(8) [of i] D(8) [of "Suc ?kp"] by simp
    show "m_xf ?ix1 ! Suc ?kp = None \<or>
          (\<exists>c. m_xf ?ix1 ! Suc ?kp = Some c \<and> c < length (heap ?ix1)
            \<and> prefix (heap ?ix1 ! c) < prefix_of s key)" if "Suc ?kp < ?mn"
      using that D(8) [of "Suc ?kp"] by simp
    show "\<exists>c. m_xf ?ix1 ! ?mn = Some c \<and> c < length (heap ?ix1)
            \<and> \<not> prefix (heap ?ix1 ! c) < prefix_of s key"
      using f(1,2) pfx below by (simp add: nth_append prefix_less_unat)
    show "m_xf ?ix1 ! ?mn \<noteq> m_xf ?ix1 ! Suc ?kp" if "Suc ?kp < ?mn"
      using that D(8) [of "Suc ?kp"] f(2) by simp
  qed
  then obtain xf' where xf': "update_xf key (prefix_of s key) (Some ?n) ?ix1 =
      Some (?ix1\<lparr>m_min := min key (m_min ix), m_max := max key (m_max ix), m_xf := xf'\<rparr>)"
    "length xf' = length ?xf"
    "\<And>i. i < length ?xf \<Longrightarrow> xf' ! i = (if ?kp \<le> i \<and> i < ?mn then Some ?n else ?xf ! i)"
    by auto
  let ?ix' = "?ix1\<lparr>m_min := min key (m_min ix), m_max := max key (m_max ix), m_xf := xf'\<rparr>"
  have "index_inv t_list s (Set.insert key S) ?ix'"
  proof (rule inv_new_bucket [OF inv new])
    show "m_first_b ?ix' = (if ?kp < ?mn then Some ?n else m_first_b ix)"
      using below by simp
    show "length (m_xf ?ix') = Suc (max ?kp ?mx)"
      using below B(3) [OF B(1)] by (simp add: xf'(2) D(6) max_absorb2)
  next
    fix i assume "i < length (m_xf ?ix')"
    then have i: "i < length ?xf" by (simp add: xf'(2))
    have cov: "(?kp \<le> i \<and> (\<forall>p\<in>?P. ?kp < p \<longrightarrow> i < p)) \<longleftrightarrow> (?kp \<le> i \<and> i < ?mn)"
      using B(1) below B(3) by (auto simp add: less_le_trans)
    show "m_xf ?ix' ! i =
        (if ?kp \<le> i \<and> (\<forall>p\<in>?P. ?kp < p \<longrightarrow> i < p)
         then Some ?n else ?xf ! min i ?mx)"
      unfolding cov using i xf'(3) [OF i] D(6) by (simp add: min_absorb1)
  next
    have "lower_keys s S ?kp = {}"
    proof -
      have "\<not> pf s k < ?kp" if "k \<in> S" for k
        using lt [of "pf s k"] that by (simp add: occupied_def)
      then show ?thesis by (auto simp add: lower_keys_def)
    qed
    then show "prev_pred (heap ?ix' ! ?n) = prev_spec s S ?kp"
      by (simp add: prev_spec_def nth_append)
    have "nxt ?P ?kp = ?mn"
      using finP B(1) below B(3) by (intro nxt_eqI) auto
    then show "next_b (heap ?ix' ! ?n) = next_spec ?P ?xf ?kp"
      using f(2) by (simp add: next_spec_nonempty [OF B(1) below] nth_append)
    show "prefix (heap ?ix' ! ?n) = prefix_of s key"
      "store (heap ?ix' ! ?n) = store1 t_list (suffix_of s key)"
      by (simp_all add: nth_append)
  next
    fix a assume a: "a < ?n"
    have "\<not> is_pred ?P ?kp (unat (prefix (?h ! a)))"
      using lt [OF D(11) [OF a]] by (simp add: is_pred_def)
    moreover have "is_succ ?P ?kp (unat (prefix (?h ! a))) \<longleftrightarrow> a = f"
    proof
      assume "is_succ ?P ?kp (unat (prefix (?h ! a)))"
      then have "unat (prefix (?h ! a)) \<le> ?mn" using B(1) below by (simp add: is_succ_def)
      with B(3) [OF D(11) [OF a]] have "unat (prefix (?h ! a)) = ?mn" by simp
      with D(12) [OF a] f(2) show "a = f" by simp
    next
      assume "a = f"
      then show "is_succ ?P ?kp (unat (prefix (?h ! a)))"
        using pfx below B(3) by (simp add: is_succ_def)
    qed
    ultimately show "prefix (heap ?ix' ! a) = prefix (?h ! a) \<and>
        store (heap ?ix' ! a) = store (?h ! a) \<and>
        next_b (heap ?ix' ! a) =
          (if is_pred ?P ?kp (unat (prefix (?h ! a))) then Some ?n else next_b (?h ! a)) \<and>
        prev_pred (heap ?ix' ! a) =
          (if is_succ ?P ?kp (unat (prefix (?h ! a))) then key else prev_pred (?h ! a))"
      using a f(1) by (auto simp add: nth_list_update nth_append)
  qed (simp_all add: D(3))
  with 1 xf'(1) show ?thesis by simp
qed


lemma insert_gap:
  assumes inv: "index_inv t_list s S ix" and s: "0 < s"
    and new: "pf s key \<notin> occupied s S"
    and range: "pf s (Min S) \<le> pf s key" "pf s key \<le> pf s (Max S)"
  shows "\<exists>ix'. insert_key t_list s key ix = Some ix' \<and> index_inv t_list s (Set.insert key S) ix'"
proof -
  let ?P = "occupied s S" and ?kp = "pf s key" and ?mx = "pf s (Max S)" and ?mn = "pf s (Min S)"
  let ?h = "heap ix" and ?xf = "m_xf ix" and ?n = "length (heap ix)"
  note D = index_invD [OF inv]
  have finP: "finite ?P" using D(1) by (rule occupied_finite)
  note B = occupied_bounds [OF D(1,2), where s = s]
  define q where "q = own ?P ?kp"
  define r where "r = nxt ?P ?kp"
  have kmx: "?kp < ?mx" using range(2) new B(2) by (cases "?kp = ?mx") auto
  note q = own_props [OF finP B(1) range(1), folded q_def]
  note r = nxt_props [OF finP B(2) kmx, folded r_def]
  have qk: "q < ?kp" using q(1,2) new by (cases "q = ?kp") auto
  have between: "p \<le> q \<or> r \<le> p" if "p \<in> ?P" for p
  proof (cases "p \<le> ?kp")
    case True
    then show ?thesis using own_props(3) [OF finP that, of ?kp] by (simp add: q_def)
  next
    case False
    then show ?thesis using nxt_props(3) [OF finP that, of ?kp] by (simp add: r_def)
  qed
  have own_mid: "own ?P i = q" if "?kp \<le> i" "i < r" for i
  proof (rule own_eqI [OF finP q(1)])
    show "q \<le> i" using qk that by simp
    fix p assume "p \<in> ?P" "p \<le> i"
    then show "p \<le> q" using between [of p] that by auto
  qed
  have nq: "nxt ?P q = r"
  proof (rule nxt_eqI [OF finP r(1)])
    show "q < r" using qk r(2) by simp
    fix p assume "p \<in> ?P" "q < p"
    then show "r \<le> p" using between [of p] by auto
  qed
  from D(10) [OF q(1)] obtain a where a: "a < ?n" "?xf ! q = Some a"
    "bucket_ok t_list s S ?xf q (?h ! a)" by blast
  from D(10) [OF r(1)] obtain c where c: "c < ?n" "?xf ! r = Some c"
    "bucket_ok t_list s S ?xf r (?h ! c)" by blast
  have pa: "unat (prefix (?h ! a)) = q" and pc: "unat (prefix (?h ! c)) = r"
    using a(3) c(3) by (simp_all add: bucket_ok_def)
  have ca: "c \<noteq> a" using pa pc qk r(2) by auto
  have xmid: "?xf ! i = Some a" if "?kp \<le> i" "i < r" for i
  proof -
    have "?mn \<le> i" "i \<le> ?mx" using that range(1) B(3) [OF r(1)] by simp_all
    from D(9) [OF this] show ?thesis using own_mid [OF that] a(2) by simp
  qed
  have na: "next_b (?h ! a) = Some c"
    using a(3) c(2) nq r(1) qk r(2) by (simp add: bucket_ok_def next_spec_nonempty [of r])
  let ?nb = "\<lparr>prefix = prefix_of s key, prev_pred = prev_pred (?h ! c), next_b = Some c,
      store = store1 t_list (suffix_of s key)\<rparr>"
  let ?h' = "(?h @ [?nb])[a := (?h ! a)\<lparr>next_b := Some ?n\<rparr>, c := (?h ! c)\<lparr>prev_pred := key\<rparr>]"
  let ?ix1 = "ix\<lparr>heap := ?h'\<rparr>"
  have c1: "\<not> length ?xf \<le> unat (prefix_of s key)"
    using range(2) D(6) by (simp add: pf_def)
  have c2: "\<not> prefix_of s key < prefix_of s (m_min ix)"
    using range(1) by (simp add: prefix_less_iff D(4))
  have c3: "prefix (?h ! a) \<noteq> prefix_of s key"
    using pa qk by (auto simp add: pf_def)
  have 1: "insert_key t_list s key ix = update_xf key (prefix_of s key) (Some ?n) ?ix1"
    using c1 c2 c3 xmid [of ?kp] r(2) a(1) c(1) ca na
    by (simp add: insert_key_def Let_def assign_def deref_def pf_def [symmetric]
        nth_append nth_list_update list_update_swap [of a] list_update_append)
  have "\<exists>xf'. update_xf key (prefix_of s key) (Some ?n) ?ix1 =
      Some (?ix1\<lparr>m_min := min key (m_min ?ix1), m_max := max key (m_max ?ix1), m_xf := xf'\<rparr>)
    \<and> length xf' = length (m_xf ?ix1)
    \<and> (\<forall>i<length (m_xf ?ix1). xf' ! i =
          (if ?kp \<le> i \<and> i < r then Some ?n else m_xf ?ix1 ! i))"
  proof (rule update_xf_range [OF s])
    show "?kp < r" by (rule r(2))
    show "r < length (m_xf ?ix1)" using B(3) [OF r(1)] D(6) by simp
    show "m_xf ?ix1 ! i = m_xf ?ix1 ! Suc ?kp" if "?kp < i" "i < r" for i
    proof -
      from that have "Suc ?kp < r" by simp
      then show ?thesis using that xmid [of i] xmid [of "Suc ?kp"] by simp
    qed
    show "m_xf ?ix1 ! Suc ?kp = None \<or>
          (\<exists>c. m_xf ?ix1 ! Suc ?kp = Some c \<and> c < length (heap ?ix1)
            \<and> prefix (heap ?ix1 ! c) < prefix_of s key)" if "Suc ?kp < r"
      using that xmid [of "Suc ?kp"] a(1) c(1) ca pa qk
      by (simp add: nth_append nth_list_update prefix_less_unat)
    show "\<exists>c. m_xf ?ix1 ! r = Some c \<and> c < length (heap ?ix1)
            \<and> \<not> prefix (heap ?ix1 ! c) < prefix_of s key"
      using c(1,2) pc r(2) by (simp add: nth_append nth_list_update prefix_less_unat)
    show "m_xf ?ix1 ! r \<noteq> m_xf ?ix1 ! Suc ?kp" if "Suc ?kp < r"
      using that xmid [of "Suc ?kp"] c(2) ca by simp
  qed
  then obtain xf' where xf': "update_xf key (prefix_of s key) (Some ?n) ?ix1 =
      Some (?ix1\<lparr>m_min := min key (m_min ix), m_max := max key (m_max ix), m_xf := xf'\<rparr>)"
    "length xf' = length ?xf"
    "\<And>i. i < length ?xf \<Longrightarrow> xf' ! i = (if ?kp \<le> i \<and> i < r then Some ?n else ?xf ! i)"
    by auto
  let ?ix' = "?ix1\<lparr>m_min := min key (m_min ix), m_max := max key (m_max ix), m_xf := xf'\<rparr>"
  have "index_inv t_list s (Set.insert key S) ?ix'"
  proof (rule inv_new_bucket [OF inv new])
    show "m_first_b ?ix' = (if ?kp < ?mn then Some ?n else m_first_b ix)"
      using range(1) by simp
    show "length (m_xf ?ix') = Suc (max ?kp ?mx)"
      using range(2) by (simp add: xf'(2) D(6) max_absorb2)
  next
    fix i assume "i < length (m_xf ?ix')"
    then have i: "i < length ?xf" by (simp add: xf'(2))
    have cov: "(?kp \<le> i \<and> (\<forall>p\<in>?P. ?kp < p \<longrightarrow> i < p)) \<longleftrightarrow> (?kp \<le> i \<and> i < r)"
    proof -
      have "i < p" if "i < r" "p \<in> ?P" "?kp < p" for p
        using between [OF that(2)] that qk by auto
      then show ?thesis using r(1,2) by auto
    qed
    show "m_xf ?ix' ! i =
        (if ?kp \<le> i \<and> (\<forall>p\<in>?P. ?kp < p \<longrightarrow> i < p)
         then Some ?n else ?xf ! min i ?mx)"
      unfolding cov using i xf'(3) [OF i] D(6) by (simp add: min_absorb1)
  next
    have "lower_keys s S ?kp = lower_keys s S r"
    proof -
      have "pf s k < ?kp \<longleftrightarrow> pf s k < r" if "k \<in> S" for k
        using between [of "pf s k"] that qk r(2) by (auto simp add: occupied_def)
      then show ?thesis by (auto simp add: lower_keys_def)
    qed
    then have "prev_spec s S ?kp = prev_spec s S r" by (simp add: prev_spec_def)
    then show "prev_pred (heap ?ix' ! ?n) = prev_spec s S ?kp"
      using a(1) c(1,3) by (simp add: nth_list_update nth_append bucket_ok_def)
    show "next_b (heap ?ix' ! ?n) = next_spec ?P ?xf ?kp"
      using a(1) c(1,2) by (simp add: next_spec_nonempty [OF r(1,2) [unfolded r_def]]
          r_def [symmetric] nth_list_update nth_append)
    show "prefix (heap ?ix' ! ?n) = prefix_of s key"
      "store (heap ?ix' ! ?n) = store1 t_list (suffix_of s key)"
      using a(1) c(1) by (simp_all add: nth_list_update nth_append)
  next
    fix a' assume a': "a' < ?n"
    have "is_pred ?P ?kp (unat (prefix (?h ! a'))) \<longleftrightarrow> a' = a"
    proof
      assume "is_pred ?P ?kp (unat (prefix (?h ! a')))"
      then have "unat (prefix (?h ! a')) = q"
        using is_pred_iff [OF finP D(11) [OF a'] new] by (simp add: q_def)
      with D(12) [OF a'] a(2) show "a' = a" by simp
    next
      assume "a' = a"
      then show "is_pred ?P ?kp (unat (prefix (?h ! a')))"
        using is_pred_iff [OF finP q(1) new] pa q(1,2) by (auto simp add: q_def)
    qed
    moreover have "is_succ ?P ?kp (unat (prefix (?h ! a'))) \<longleftrightarrow> a' = c"
    proof
      assume "is_succ ?P ?kp (unat (prefix (?h ! a')))"
      then have "unat (prefix (?h ! a')) = r"
        using is_succ_iff [OF finP D(11) [OF a'], of ?kp] by (simp add: r_def)
      with D(12) [OF a'] c(2) show "a' = c" by simp
    next
      assume "a' = c"
      then show "is_succ ?P ?kp (unat (prefix (?h ! a')))"
        using is_succ_iff [OF finP r(1), of ?kp] pc r(1,2) by (auto simp add: r_def)
    qed
    ultimately show "prefix (heap ?ix' ! a') = prefix (?h ! a') \<and>
        store (heap ?ix' ! a') = store (?h ! a') \<and>
        next_b (heap ?ix' ! a') =
          (if is_pred ?P ?kp (unat (prefix (?h ! a'))) then Some ?n else next_b (?h ! a')) \<and>
        prev_pred (heap ?ix' ! a') =
          (if is_succ ?P ?kp (unat (prefix (?h ! a'))) then key else prev_pred (?h ! a'))"
      using a' a(1) c(1) ca by (auto simp add: nth_list_update nth_append)
  qed (simp_all add: D(3))
  with 1 xf'(1) show ?thesis by simp
qed


subsection \<open>Every sequence of insertions\<close>

lemma insert_preserves:
  assumes inv: "index_inv t_list s S ix" and s: "0 < s"
  shows "\<exists>ix'. insert_key t_list s key ix = Some ix' \<and> index_inv t_list s (Set.insert key S) ix'"
proof (cases "pf s key \<in> occupied s S")
  case True
  with inv s show ?thesis by (rule insert_exact)
next
  case False
  consider "pf s (Max S) < pf s key" | "pf s key < pf s (Min S)"
    | "pf s (Min S) \<le> pf s key" "pf s key \<le> pf s (Max S)" by linarith
  then show ?thesis
  proof cases
    case 1
    with inv s show ?thesis by (rule insert_above)
  next
    case 2
    with inv s show ?thesis by (rule insert_below)
  next
    case 3
    with inv s False show ?thesis by (rule insert_gap)
  qed
qed

lemma inserts_preserve:
  assumes "index_inv t_list s S ix" "0 < s"
  shows "\<exists>ix'. inserts t_list s ks ix = Some ix' \<and> index_inv t_list s (S \<union> set ks) ix'"
  using assms(1)
proof (induction ks arbitrary: S ix)
  case Nil
  then show ?case by simp
next
  case (Cons k ks)
  from insert_preserves [OF Cons.prems assms(2), of k] obtain ix1 where
    1: "insert_key t_list s k ix = Some ix1" "index_inv t_list s (Set.insert k S) ix1" by blast
  from Cons.IH [OF 1(2)] obtain ix' where
    "inserts t_list s ks ix1 = Some ix'" "index_inv t_list s (Set.insert k S \<union> set ks) ix'"
    by blast
  with 1(1) show ?case by simp
qed

lemma inserts_inv:
  assumes "0 < s" "ks \<noteq> []"
  shows "\<exists>ix. inserts t_list s ks (empty_index g_min g_max) = Some ix
          \<and> index_inv t_list s (set ks) ix"
proof -
  from assms(2) obtain k ks' where ks: "ks = k # ks'" by (cases ks) auto
  from insert_first [OF assms(1), of t_list k g_min g_max] obtain ix1 where
    1: "insert_key t_list s k (empty_index g_min g_max) = Some ix1" "index_inv t_list s {k} ix1"
    by blast
  from inserts_preserve [OF 1(2) assms(1), of ks'] obtain ix where
    "inserts t_list s ks' ix1 = Some ix" "index_inv t_list s ({k} \<union> set ks') ix" by blast
  with 1(1) show ?thesis by (simp add: ks)
qed

section \<open>Properties of the index\<close>

lemma xf_bucket:
  assumes inv: "index_inv t_list s S ix"
    and i: "pf s (Min S) \<le> i" "i \<le> pf s (Max S)"
  shows "\<exists>a < length (heap ix). m_xf ix ! i = Some a \<and>
      bucket_ok t_list s S (m_xf ix) (own (occupied s S) i) (heap ix ! a)"
proof -
  note D = index_invD [OF inv]
  have finP: "finite (occupied s S)" using D(1) by (rule occupied_finite)
  note B = occupied_bounds [OF D(1,2), where s = s]
  note o = own_props [OF finP B(1) i(1)]
  from D(10) [OF o(1)] D(9) [OF i] show ?thesis by simp
qed

lemma predecessor_inv:
  assumes inv: "index_inv t_list s S ix"
  shows "\<exists>r. predecessor s ix x = Some r \<and>
    (if x < Min S then r = \<lparr>exists = False, pos = 0\<rparr>
     else if Max S \<le> x then r = \<lparr>exists = True, pos = Max S\<rparr>
     else exists r)"
proof -
  note D = index_invD [OF inv]
  show ?thesis
  proof (cases "x < Min S \<or> Max S \<le> x")
    case True
    then show ?thesis by (auto simp add: predecessor_def D(3,4,5))
  next
    case False
    then have x: "Min S \<le> x" "x \<le> Max S" by auto
    from xf_bucket [OF inv pf_mono [OF x(1)] pf_mono [OF x(2)]] obtain a where
      "a < length (heap ix)" "m_xf ix ! pf s x = Some a" by blast
    then show ?thesis using False pf_mono [OF x(2), of s]
      by (simp add: predecessor_def D(3,4,5,6) at_def deref_def pf_def)
  qed
qed

text \<open>
  Claim C3: \<open>predecessor\<close> on the empty index returns \<open>{false, 1}\<close>; after the keys
  \<open>ks\<close> (not empty) have been inserted, it returns \<open>{false, 0}\<close> for every
  \<open>x\<close> below the least key and \<open>{true, max}\<close> for every \<open>x\<close> at or above the
  greatest key.
\<close>

theorem predecessor_boundaries:
  assumes "0 < s"
  shows "predecessor s (empty_index g_min g_max) x = Some \<lparr>exists = False, pos = 1\<rparr> \<and>
    (ks \<noteq> [] \<longrightarrow>
      (\<exists>ix. inserts t_list s ks (empty_index g_min g_max) = Some ix \<and>
        (x < Min (set ks) \<longrightarrow> predecessor s ix x = Some \<lparr>exists = False, pos = 0\<rparr>) \<and>
        (Max (set ks) \<le> x \<longrightarrow>
           predecessor s ix x = Some \<lparr>exists = True, pos = Max (set ks)\<rparr>)))"
proof (intro conjI impI)
  show "predecessor s (empty_index g_min g_max) x = Some \<lparr>exists = False, pos = 1\<rparr>"
    by (simp add: predecessor_def empty_index_def)
next
  assume ks: "ks \<noteq> []"
  from inserts_inv [OF assms ks, of t_list g_min g_max] obtain ix where
    ix: "inserts t_list s ks (empty_index g_min g_max) = Some ix" "index_inv t_list s (set ks) ix"
    by blast
  from predecessor_inv [OF ix(2), of x] obtain r where
    r: "predecessor s ix x = Some r"
      "if x < Min (set ks) then r = \<lparr>exists = False, pos = 0\<rparr>
       else if Max (set ks) \<le> x then r = \<lparr>exists = True, pos = Max (set ks)\<rparr>
       else exists r" by blast
  have "Min (set ks) \<le> Max (set ks)" using ks by simp
  then have "\<not> x < Min (set ks)" if "Max (set ks) \<le> x" using that by simp
  with r have "(x < Min (set ks) \<longrightarrow> predecessor s ix x = Some \<lparr>exists = False, pos = 0\<rparr>) \<and>
        (Max (set ks) \<le> x \<longrightarrow>
           predecessor s ix x = Some \<lparr>exists = True, pos = Max (set ks)\<rparr>)"
    by (auto split: if_splits)
  with ix(1) show "\<exists>ix. inserts t_list s ks (empty_index g_min g_max) = Some ix \<and>
        (x < Min (set ks) \<longrightarrow> predecessor s ix x = Some \<lparr>exists = False, pos = 0\<rparr>) \<and>
        (Max (set ks) \<le> x \<longrightarrow>
           predecessor s ix x = Some \<lparr>exists = True, pos = Max (set ks)\<rparr>)"
    by blast
qed

theorem predecessor_boundaries_witness:
  "(0::nat) < 6 \<and> [5, 200] \<noteq> ([] :: u64 list) \<and>
   (\<exists>ix. inserts False 6 [5, 200] (empty_index 0 0) = Some ix \<and>
      predecessor 6 ix 300 = Some \<lparr>exists = True, pos = 200\<rparr>) \<and>
   (\<exists>ix. inserts False 6 [5, 200] (empty_index 0 0) = Some ix \<and>
      predecessor 6 ix 4 = Some \<lparr>exists = False, pos = 0\<rparr>)"
  using predecessor_boundaries [of 6 0 0 300 "[5, 200]" False]
    predecessor_boundaries [of 6 0 0 4 "[5, 200]" False]
  by simp


text \<open>
  Claim C9: \<open>m_size\<close> is incremented on the first insertion only: it is 1 after every
  sequence of insertions that is not empty, whatever the number of distinct keys; and
  \<open>predecessor\<close> returns the result \<open>{false, 1}\<close> of the empty index if and only if
  nothing was inserted.
\<close>

theorem m_size_first_insert_only:
  assumes "0 < s"
  shows "\<exists>ix r. inserts t_list s ks (empty_index g_min g_max) = Some ix \<and>
    m_size ix = (if ks = [] then 0 else 1) \<and>
    predecessor s ix x = Some r \<and>
    (r = \<lparr>exists = False, pos = 1\<rparr> \<longleftrightarrow> ks = [])"
proof (cases "ks = []")
  case True
  then show ?thesis by (simp add: predecessor_def empty_index_def)
next
  case False
  from inserts_inv [OF assms False, of t_list g_min g_max] obtain ix where
    ix: "inserts t_list s ks (empty_index g_min g_max) = Some ix" "index_inv t_list s (set ks) ix"
    by blast
  from predecessor_inv [OF ix(2), of x] obtain r where
    r: "predecessor s ix x = Some r"
      "if x < Min (set ks) then r = \<lparr>exists = False, pos = 0\<rparr>
       else if Max (set ks) \<le> x then r = \<lparr>exists = True, pos = Max (set ks)\<rparr>
       else exists r" by blast
  from r(2) have "r \<noteq> \<lparr>exists = False, pos = 1\<rparr>"
    by (auto split: if_splits)
  with ix(1) r(1) False index_invD(3) [OF ix(2)] show ?thesis by simp
qed

theorem m_size_first_insert_only_witness:
  "(0::nat) < 6 \<and>
   (\<exists>ix r. inserts True 6 [5, 200, 7] (empty_index 0 0) = Some ix \<and> m_size ix = 1 \<and>
      predecessor 6 ix 3 = Some r \<and> r \<noteq> \<lparr>exists = False, pos = 1\<rparr>)"
  using m_size_first_insert_only [of 6 True "[5, 200, 7]" 0 0 3]
  by simp


lemma last_entry:
  assumes inv: "index_inv t_list s S ix"
  shows "\<exists>l b. vec_back (m_xf ix) = Some (Some l) \<and> deref (heap ix) (Some l) = Some b \<and>
      unat (prefix b) = length (m_xf ix) - 1"
proof -
  note D = index_invD [OF inv]
  note B = occupied_bounds [OF D(1,2), where s = s]
  from D(10) [OF B(2)] obtain l where l: "l < length (heap ix)"
    "m_xf ix ! pf s (Max S) = Some l"
    "bucket_ok t_list s S (m_xf ix) (pf s (Max S)) (heap ix ! l)" by blast
  have "vec_back (m_xf ix) = Some (Some l)"
    using D(6) l(2) by (auto simp add: vec_back_def last_conv_nth)
  moreover have "deref (heap ix) (Some l) = Some (heap ix ! l)"
    using l(1) by (simp add: deref_def)
  moreover have "unat (prefix (heap ix ! l)) = length (m_xf ix) - 1"
    using l(3) D(6) by (simp add: bucket_ok_def)
  ultimately show ?thesis by blast
qed

lemma gap_next:
  assumes inv: "index_inv t_list s S ix"
    and c1: "\<not> length (m_xf ix) \<le> unat (prefix_of s key)"
    and c2: "\<not> prefix_of s key < prefix_of s (m_min ix)"
    and kb: "deref (heap ix) (m_xf ix ! unat (prefix_of s key)) = Some kb"
    and c3: "prefix kb \<noteq> prefix_of s key"
  shows "\<exists>nn. deref (heap ix) (next_b kb) = Some nn"
proof -
  let ?P = "occupied s S" and ?kp = "pf s key" and ?mx = "pf s (Max S)" and ?mn = "pf s (Min S)"
  let ?h = "heap ix" and ?xf = "m_xf ix"
  note D = index_invD [OF inv]
  have finP: "finite ?P" using D(1) by (rule occupied_finite)
  note B = occupied_bounds [OF D(1,2), where s = s]
  have range: "?mn \<le> ?kp" "?kp \<le> ?mx"
    using c1 c2 by (simp_all add: D(4,6) prefix_less_iff pf_def [symmetric])
  from xf_bucket [OF inv range] obtain a where a: "a < length ?h" "?xf ! ?kp = Some a"
    "bucket_ok t_list s S ?xf (own ?P ?kp) (?h ! a)" by blast
  have kb_eq: "kb = ?h ! a" using kb a(1,2) by (simp add: deref_def pf_def)
  have pa: "unat (prefix (?h ! a)) = own ?P ?kp" using a(3) by (simp add: bucket_ok_def)
  have new: "?kp \<notin> ?P"
  proof
    assume "?kp \<in> ?P"
    then have "own ?P ?kp = ?kp" using finP by (intro own_self)
    with pa have "prefix (?h ! a) = prefix_of s key" by (intro word_eq_unat) (simp add: pf_def)
    with c3 kb_eq show False by simp
  qed
  have kmx: "?kp < ?mx" using range(2) new B(2) by (cases "?kp = ?mx") auto
  note q = own_props [OF finP B(1) range(1)]
  have qk: "own ?P ?kp < ?kp" using q(1,2) new by (cases "own ?P ?kp = ?kp") auto
  with kmx have "own ?P ?kp < ?mx" by simp
  note r = nxt_props [OF finP B(2) this]
  from D(10) [OF r(1)] obtain c where c: "c < length ?h" "?xf ! nxt ?P (own ?P ?kp) = Some c"
    by blast
  have "next_b (?h ! a) = Some c"
    using a(3) c(2) \<open>own ?P ?kp < ?mx\<close>
    by (simp add: bucket_ok_def next_spec_nonempty [OF B(2)])
  then show ?thesis using c(1) kb_eq by (simp add: deref_def)
qed

text \<open>
  Claim C10: after every sequence of insertions, the last entry of \<open>xf\<close> points to a
  bucket whose prefix is \<open>len(xf) - 1\<close>; and whenever \<open>insert\<close> reaches the gap case
  (the bucket stored at \<open>xf[pre]\<close> has another prefix than \<open>pre\<close>), the \<open>next_b\<close>
  pointer of that bucket is not null and points to a bucket, so that the insertion goes
  through without dereferencing the null pointer.
\<close>

theorem gap_case_next_not_null:
  assumes "0 < s"
  shows "\<exists>ix. inserts t_list s ks (empty_index g_min g_max) = Some ix \<and>
    (ks \<noteq> [] \<longrightarrow>
      (\<exists>l b. vec_back (m_xf ix) = Some (Some l) \<and> deref (heap ix) (Some l) = Some b \<and>
        unat (prefix b) = length (m_xf ix) - 1)) \<and>
    (\<forall>key kb.
      \<not> length (m_xf ix) \<le> unat (prefix_of s key) \<and>
      \<not> prefix_of s key < prefix_of s (m_min ix) \<and>
      deref (heap ix) (m_xf ix ! unat (prefix_of s key)) = Some kb \<and>
      prefix kb \<noteq> prefix_of s key \<longrightarrow>
        next_b kb \<noteq> None \<and> (\<exists>nn. deref (heap ix) (next_b kb) = Some nn) \<and>
        (\<exists>ix'. insert_key t_list s key ix = Some ix'))"
proof (cases "ks = []")
  case True
  then show ?thesis by (simp add: empty_index_def)
next
  case False
  from inserts_inv [OF assms False, of t_list g_min g_max] obtain ix where
    ix: "inserts t_list s ks (empty_index g_min g_max) = Some ix" "index_inv t_list s (set ks) ix"
    by blast
  have "next_b kb \<noteq> None \<and> (\<exists>nn. deref (heap ix) (next_b kb) = Some nn) \<and>
        (\<exists>ix'. insert_key t_list s key ix = Some ix')"
    if "\<not> length (m_xf ix) \<le> unat (prefix_of s key)"
      "\<not> prefix_of s key < prefix_of s (m_min ix)"
      "deref (heap ix) (m_xf ix ! unat (prefix_of s key)) = Some kb"
      "prefix kb \<noteq> prefix_of s key" for key kb
  proof -
    from gap_next [OF ix(2) that] obtain nn where nn: "deref (heap ix) (next_b kb) = Some nn" ..
    then have "next_b kb \<noteq> None" by (auto simp add: deref_def split: option.splits)
    moreover from insert_preserves [OF ix(2) assms, of key]
    have "\<exists>ix'. insert_key t_list s key ix = Some ix'" by blast
    ultimately show ?thesis using nn by blast
  qed
  with ix(1) last_entry [OF ix(2)] show ?thesis by blast
qed

lemma linked_chain:
  assumes inv: "index_inv t_list s S ix"
    and "sorted_wrt (<) (p # ps)" "set (p # ps) = {q \<in> occupied s S. p \<le> q}"
  shows "linked (heap ix) (m_xf ix ! p) (map (\<lambda>q. the (m_xf ix ! q)) (p # ps))"
  using assms(2,3)
proof (induction ps arbitrary: p)
  case Nil
  note D = index_invD [OF inv]
  from Nil have p: "p \<in> occupied s S" and top: "{q \<in> occupied s S. p < q} = {}" by auto
  from D(10) [OF p] obtain a where a: "a < length (heap ix)" "m_xf ix ! p = Some a"
    "bucket_ok t_list s S (m_xf ix) p (heap ix ! a)" by blast
  then have "next_b (heap ix ! a) = None"
    using top by (simp add: bucket_ok_def next_spec_empty)
  with a(1,2) show ?case by simp
next
  case (Cons p' ps)
  note D = index_invD [OF inv]
  have finP: "finite (occupied s S)" using D(1) by (rule occupied_finite)
  from Cons.prems have p: "p \<in> occupied s S" by auto
  from Cons.prems have lt: "p < p'" and sorted': "sorted_wrt (<) (p' # ps)" by simp_all
  from Cons.prems(1) have all_gt: "\<forall>x\<in>set (p' # ps). p < x" by simp
  from Cons.prems(1) have all_ge: "\<forall>x\<in>set ps. p' < x" by simp
  have set': "set (p' # ps) = {q \<in> occupied s S. p' \<le> q}"
  proof (intro set_eqI iffI)
    fix x assume x: "x \<in> set (p' # ps)"
    then have "x \<in> set (p # p' # ps)" by simp
    with Cons.prems(2) have "x \<in> occupied s S" by blast
    moreover from x all_ge have "p' \<le> x" by auto
    ultimately show "x \<in> {q \<in> occupied s S. p' \<le> q}" by simp
  next
    fix x assume "x \<in> {q \<in> occupied s S. p' \<le> q}"
    then have x: "x \<in> occupied s S" "p' \<le> x" by simp_all
    with lt have "x \<in> {q \<in> occupied s S. p \<le> q}" by simp
    with Cons.prems(2) have "x \<in> set (p # p' # ps)" by blast
    with x(2) lt show "x \<in> set (p' # ps)" by auto
  qed
  then have p': "p' \<in> occupied s S" by auto
  have nx: "nxt (occupied s S) p = p'"
  proof (rule nxt_eqI [OF finP p' lt])
    fix r assume "r \<in> occupied s S" "p < r"
    then have "r \<in> {q \<in> occupied s S. p \<le> q}" by simp
    with Cons.prems(2) have "r \<in> set (p # p' # ps)" by blast
    with \<open>p < r\<close> have "r \<in> set (p' # ps)" by auto
    with all_ge show "p' \<le> r" by auto
  qed
  from D(10) [OF p] obtain a where a: "a < length (heap ix)" "m_xf ix ! p = Some a"
    "bucket_ok t_list s S (m_xf ix) p (heap ix ! a)" by blast
  then have "next_b (heap ix ! a) = m_xf ix ! p'"
    using nx by (simp add: bucket_ok_def next_spec_nonempty [OF p' lt])
  with a(1,2) Cons.IH [OF sorted' set'] show ?case by simp
qed

lemma chain_exists:
  assumes inv: "index_inv t_list s S ix"
  shows "linked (heap ix) (m_first_b ix)
    (map (\<lambda>q. the (m_xf ix ! q)) (sorted_list_of_set (occupied s S)))"
proof -
  let ?P = "occupied s S"
  note D = index_invD [OF inv]
  have finP: "finite ?P" using D(1) by (rule occupied_finite)
  have ne: "?P \<noteq> {}" using D(2) by (simp add: occupied_def)
  note B = occupied_bounds [OF D(1,2), where s = s]
  have mn: "pf s (Min S) = Min ?P" using D(1,2) by (rule pf_Min)
  obtain ps where ps: "sorted_list_of_set ?P = Min ?P # ps"
    using sorted_list_of_set_nonempty [OF finP ne] by blast
  have "sorted_wrt (<) (sorted_list_of_set ?P)" by simp
  moreover have "set (sorted_list_of_set ?P) = {q \<in> ?P. Min ?P \<le> q}"
    using finP by auto
  ultimately have "linked (heap ix) (m_xf ix ! Min ?P)
      (map (\<lambda>q. the (m_xf ix ! q)) (Min ?P # ps))"
    unfolding ps by (rule linked_chain [OF inv])
  then show ?thesis by (simp add: ps D(7) mn)
qed


lemma lower_keys_Min_bucket:
  assumes "finite S" "q \<in> occupied s S"
  shows "{k \<in> S. k < Min (bucket_keys s S q)} = lower_keys s S q"
proof -
  let ?m = "Min (bucket_keys s S q)"
  have fin: "finite (bucket_keys s S q)" using assms(1) by (simp add: bucket_keys_def)
  have ne: "bucket_keys s S q \<noteq> {}" using assms(2) by (auto simp add: bucket_keys_def occupied_def)
  from Min_in [OF fin ne] have m: "?m \<in> S" "pf s ?m = q" by (simp_all add: bucket_keys_def)
  have "k < ?m \<longleftrightarrow> pf s k < q" if k: "k \<in> S" for k
  proof
    assume "k < ?m"
    then have le: "pf s k \<le> q" using pf_mono [of k ?m s] m(2) by simp
    have "pf s k \<noteq> q"
    proof
      assume "pf s k = q"
      with k have "k \<in> bucket_keys s S q" by (simp add: bucket_keys_def)
      then have "?m \<le> k" using fin by simp
      with \<open>k < ?m\<close> show False by simp
    qed
    with le show "pf s k < q" by simp
  next
    assume "pf s k < q"
    then show "k < ?m" using m(2) by (intro pf_less_imp_less [of s]) simp
  qed
  then show ?thesis by (auto simp add: lower_keys_def)
qed

lemma bucket_keys_word:
  assumes "unat p = q"
  shows "{k \<in> S. prefix_of s k = p} = bucket_keys s S q"
  using assms by (auto simp add: bucket_keys_def pf_def intro: word_eq_unat)

text \<open>
  Claim C6: after every sequence of insertions the buckets reached from \<open>m_first_b\<close>
  through \<open>next_b\<close> are the buckets of the occupied prefixes in ascending order, and
  \<open>prev_pred\<close> of every bucket is the greatest inserted key that is smaller than the
  least key of the bucket, or 0 when there is no such key (the first bucket).
\<close>

theorem buckets_linked_ascending:
  assumes "0 < s"
  shows "\<exists>ix as. inserts t_list s ks (empty_index g_min g_max) = Some ix \<and>
     linked (heap ix) (m_first_b ix) as \<and>
     map (\<lambda>a. unat (prefix (heap ix ! a))) as = sorted_list_of_set (occupied s (set ks)) \<and>
     (\<forall>a\<in>set as. prev_pred (heap ix ! a) =
        (let lo = {k \<in> set ks. k < Min {k' \<in> set ks. prefix_of s k' = prefix (heap ix ! a)}}
         in if lo = {} then 0 else Max lo))"
proof (cases "ks = []")
  case True
  then have "linked (heap (empty_index g_min g_max)) (m_first_b (empty_index g_min g_max)) []"
    by (simp add: empty_index_def)
  with True show ?thesis
    by (intro exI [of _ "empty_index g_min g_max"] exI [of _ "[]"]) (simp add: occupied_def)
next
  case False
  let ?S = "set ks" and ?P = "occupied s (set ks)"
  from inserts_inv [OF assms False, of t_list g_min g_max] obtain ix where
    ix: "inserts t_list s ks (empty_index g_min g_max) = Some ix" "index_inv t_list s ?S ix"
    by blast
  note D = index_invD [OF ix(2)]
  let ?as = "map (\<lambda>q. the (m_xf ix ! q)) (sorted_list_of_set ?P)"
  have finP: "finite ?P" by (simp add: occupied_def)
  have b: "unat (prefix (heap ix ! the (m_xf ix ! q))) = q \<and>
      prev_pred (heap ix ! the (m_xf ix ! q)) = prev_spec s ?S q" if "q \<in> ?P" for q
    using D(10) [OF that] by (auto simp add: bucket_ok_def)
  have 1: "linked (heap ix) (m_first_b ix) ?as" using ix(2) by (rule chain_exists)
  have 2: "map (\<lambda>a. unat (prefix (heap ix ! a))) ?as = sorted_list_of_set ?P"
  proof -
    have "map (\<lambda>q. unat (prefix (heap ix ! the (m_xf ix ! q)))) (sorted_list_of_set ?P)
        = sorted_list_of_set ?P"
      using b finP by (intro map_idI) simp
    then show ?thesis by (simp add: comp_def)
  qed
  have 3: "prev_pred (heap ix ! a) =
        (let lo = {k \<in> ?S. k < Min {k' \<in> ?S. prefix_of s k' = prefix (heap ix ! a)}}
         in if lo = {} then 0 else Max lo)" if "a \<in> set ?as" for a
  proof -
    from that finP obtain q where q: "q \<in> ?P" "a = the (m_xf ix ! q)" by auto
    have "{k' \<in> ?S. prefix_of s k' = prefix (heap ix ! a)} = bucket_keys s ?S q"
      using b [OF q(1)] q(2) by (intro bucket_keys_word) simp
    then have "{k \<in> ?S. k < Min {k' \<in> ?S. prefix_of s k' = prefix (heap ix ! a)}}
        = lower_keys s ?S q"
      using lower_keys_Min_bucket [OF D(1) q(1)] by simp
    then show ?thesis using b [OF q(1)] q(2) by (simp add: prev_spec_def Let_def)
  qed
  from ix(1) 1 2 3 show ?thesis by blast
qed

text \<open>
  Claim C7: after every sequence of insertions that is not empty, \<open>xf\<close> is a step
  function: it has one entry for every prefix up to that of the greatest key; the entries
  below the prefix of the least key are null, and every other entry \<open>xf[p]\<close> points to
  the bucket, linked in the chain of buckets, whose prefix is the greatest occupied prefix
  at or below \<open>p\<close>.
\<close>

theorem xf_step_function:
  assumes "0 < s" "ks \<noteq> []"
  shows "\<exists>ix as. inserts t_list s ks (empty_index g_min g_max) = Some ix \<and>
     linked (heap ix) (m_first_b ix) as \<and>
     length (m_xf ix) = Suc (pf s (Max (set ks))) \<and>
     (\<forall>p < length (m_xf ix).
        if p < pf s (Min (set ks)) then m_xf ix ! p = None
        else \<exists>a. m_xf ix ! p = Some a \<and> a \<in> set as \<and> a < length (heap ix) \<and>
          unat (prefix (heap ix ! a)) = Max {q \<in> occupied s (set ks). q \<le> p})"
proof -
  let ?S = "set ks" and ?P = "occupied s (set ks)"
  from inserts_inv [OF assms, of t_list g_min g_max] obtain ix where
    ix: "inserts t_list s ks (empty_index g_min g_max) = Some ix" "index_inv t_list s ?S ix"
    by blast
  note D = index_invD [OF ix(2)]
  note B = occupied_bounds [OF D(1,2), where s = s]
  let ?as = "map (\<lambda>q. the (m_xf ix ! q)) (sorted_list_of_set ?P)"
  have finP: "finite ?P" by (simp add: occupied_def)
  have 1: "linked (heap ix) (m_first_b ix) ?as" using ix(2) by (rule chain_exists)
  have 2: "if p < pf s (Min ?S) then m_xf ix ! p = None
        else \<exists>a. m_xf ix ! p = Some a \<and> a \<in> set ?as \<and> a < length (heap ix) \<and>
          unat (prefix (heap ix ! a)) = Max {q \<in> ?P. q \<le> p}" if p: "p < length (m_xf ix)" for p
  proof (cases "p < pf s (Min ?S)")
    case True
    then show ?thesis using D(8) by simp
  next
    case False
    then have r: "pf s (Min ?S) \<le> p" "p \<le> pf s (Max ?S)" using p D(6) by simp_all
    from xf_bucket [OF ix(2) r] obtain a where a: "a < length (heap ix)" "m_xf ix ! p = Some a"
      "bucket_ok t_list s ?S (m_xf ix) (own ?P p) (heap ix ! a)" by blast
    note o = own_props [OF finP B(1) r(1)]
    have "m_xf ix ! own ?P p = Some a" using D(9) [OF r] a(2) by simp
    then have "a = the (m_xf ix ! own ?P p)" by simp
    with o(1) finP have "a \<in> set ?as" by auto
    with a False show ?thesis by (auto simp add: bucket_ok_def own_def)
  qed
  from ix(1) 1 2 D(6) show ?thesis by blast
qed


subsection \<open>Runs on concrete keys\<close>

lemma replicate_numeral: "replicate (numeral v) x = x # replicate (numeral v - 1) x"
  by (simp add: numeral_eq_Suc)

lemma list_update_Cons_numeral: "(x # xs)[numeral v := y] = x # xs[numeral v - 1 := y]"
  by (simp add: numeral_eq_Suc)

lemmas run_simps = insert_key_def Let_def update_xf_def resize_def store1_def vec_back_def
  assign_def deref_def at_def predecessor_def pred_b_def set_b_def fill.simps bv_scan.simps
  replicate_numeral list_update_Cons_numeral prefix_of_def suffix_of_def empty_index_def
  new_bucket_def


lemma run_5_200:
  "inserts False 6 [5, 200] (empty_index 0 0) =
     Some \<lparr>m_size = 1, m_min = 5, m_max = 200, m_xf = [Some 0, Some 0, Some 0, Some 1],
       m_first_b = Some 0,
       heap = [\<lparr>prefix = 0, prev_pred = 0, next_b = Some 1, store = bits {5}\<rparr>,
               \<lparr>prefix = 3, prev_pred = 5, next_b = None, store = bits {8}\<rparr>]\<rparr>"
  by (simp add: run_simps)

theorem buckets_linked_ascending_witness:
  "(0::nat) < 6 \<and>
   (\<exists>ix as. inserts False 6 [5, 200] (empty_index 0 0) = Some ix \<and>
     linked (heap ix) (m_first_b ix) as \<and>
     map (\<lambda>a. unat (prefix (heap ix ! a))) as = sorted_list_of_set (occupied 6 (set [5, 200])) \<and>
     (\<forall>a\<in>set as. prev_pred (heap ix ! a) =
        (let lo = {k \<in> set [5, 200]. k < Min {k' \<in> set [5, 200]. prefix_of 6 k' = prefix (heap ix ! a)}}
         in if lo = {} then 0 else Max lo)))"
  using buckets_linked_ascending [of 6 False "[5, 200]" 0 0] by simp

theorem xf_step_function_witness:
  "(0::nat) < 6 \<and> [5, 200] \<noteq> ([] :: u64 list) \<and>
   (\<exists>ix as. inserts False 6 [5, 200] (empty_index 0 0) = Some ix \<and>
     linked (heap ix) (m_first_b ix) as \<and>
     length (m_xf ix) = Suc (pf 6 (Max (set [5, 200]))) \<and>
     (\<forall>p < length (m_xf ix).
        if p < pf 6 (Min (set [5, 200])) then m_xf ix ! p = None
        else \<exists>a. m_xf ix ! p = Some a \<and> a \<in> set as \<and> a < length (heap ix) \<and>
          unat (prefix (heap ix ! a)) = Max {q \<in> occupied 6 (set [5, 200]). q \<le> p}))"
  using xf_step_function [of 6 "[5, 200]" False 0 0] by simp

theorem gap_case_next_not_null_witness:
  "(0::nat) < 6 \<and>
   (\<exists>ix kb. inserts False 6 [5, 200] (empty_index 0 0) = Some ix \<and>
      \<not> length (m_xf ix) \<le> unat (prefix_of 6 70) \<and>
      \<not> prefix_of 6 70 < prefix_of 6 (m_min ix) \<and>
      deref (heap ix) (m_xf ix ! unat (prefix_of 6 70)) = Some kb \<and>
      prefix kb \<noteq> prefix_of 6 70 \<and>
      next_b kb \<noteq> None \<and> (\<exists>ix'. insert_key False 6 70 ix = Some ix'))"
proof -
  let ?kb = "\<lparr>prefix = 0, prev_pred = 0, next_b = Some 1, store = bits {5}\<rparr>"
  from gap_case_next_not_null [of 6 False "[5, 200]" 0 0] obtain ix where
    ix: "inserts False 6 [5, 200] (empty_index 0 0) = Some ix" and
    gap: "\<And>key kb. \<not> length (m_xf ix) \<le> unat (prefix_of 6 key) \<Longrightarrow>
      \<not> prefix_of 6 key < prefix_of 6 (m_min ix) \<Longrightarrow>
      deref (heap ix) (m_xf ix ! unat (prefix_of 6 key)) = Some kb \<Longrightarrow>
      prefix kb \<noteq> prefix_of 6 key \<Longrightarrow>
        next_b kb \<noteq> None \<and> (\<exists>ix'. insert_key False 6 key ix = Some ix')"
    by auto
  from ix have c: "\<not> length (m_xf ix) \<le> unat (prefix_of 6 70)"
    "\<not> prefix_of 6 70 < prefix_of 6 (m_min ix)"
    "deref (heap ix) (m_xf ix ! unat (prefix_of 6 70)) = Some ?kb"
    "prefix ?kb \<noteq> prefix_of 6 70"
    unfolding run_5_200 by (auto simp add: prefix_of_def deref_def)
  from gap [OF c] c ix show ?thesis by auto
qed


subsection \<open>What a query returns\<close>





















subsection \<open>Queries that are answered with the predecessor\<close>







subsection \<open>The Octrie returns the predecessor\<close>




























subsection \<open>The variants of the index\<close>











text \<open>
  Claim C1 fails on the code: when the prefix of the query has no bucket of its own, \<open>xf\<close>
  leads to the bucket of a smaller prefix, and \<open>pred\<close> searches that bucket with the
  suffix of the query, though every key of the bucket is below the query. With \<open>s = 6\<close>
  and the keys 5 and 200, the query 65 is answered with \<open>{true, 0}\<close> by both bucket
  representations; the greatest key at or below 65 is 5, and 0 is no key at all.
\<close>

theorem predecessor_gap_prefix:
  "answer False 6 (empty_index 0 0) [5, 200] 65 = Some \<lparr>exists = True, pos = 0\<rparr> \<and>
   answer True 6 (empty_index 0 0) [5, 200] 65 = Some \<lparr>exists = True, pos = 0\<rparr> \<and>
   Max {z \<in> set [5, 200]. z \<le> (65 :: u64)} = 5 \<and> (0 :: u64) \<notin> set [5, 200]"
proof -
  have "{z \<in> set [5, 200]. z \<le> (65 :: u64)} = {5}" by auto
  then show ?thesis by (simp add: answer_def run_simps)
qed

end
